theory Spec2Isabelle
  imports Main "HOL-Library.Char_ord" "HOL-Library.List_Lexorder"
begin

section \<open>Values, objects and the store\<close>

text \<open>
  The values a parsed document is made of, and the values an accessor holds. Lists and plain
  dictionaries are never written to by the code under study, so they are values; the objects
  the code allocates and writes to (\<open>DotAccessDict\<close>, \<open>SafeNone\<close>) live in a store and
  are referred to by address (\<open>VRef\<close>). Keys are strings; Python compares strings by code
  point, which is the bytewise order of their UTF-8 form. Floating point numbers are left out.
\<close>

datatype val =
    VNone
  | VBool bool
  | VInt int
  | VStr string
  | VList "val list"
  | VDict "(string \<times> val) list"
  | VRef nat

text \<open>
  A \<open>DotAccessDict\<close> instance has the ordered store \<open>_data\<close>, the attribute table of its
  \<open>_namespace\<close>, and the other entries of its instance dictionary (attributes assigned from
  outside). A \<open>SafeNone\<close> instance has no state.
\<close>

datatype obj =
    DotAccessDict (data_of: "(string \<times> val) list")
                  (namespace_of: "(string \<times> val) list")
                  (attrs_of: "(string \<times> val) list")
  | SafeNone

type_synonym heap = "obj list"

datatype error = AttributeError | TypeError | RecursionError

definition deref :: "heap \<Rightarrow> nat \<Rightarrow> obj option" where
  "deref h r = (if r < length h then Some (h ! r) else None)"

text \<open>Allocation appends to the store; the new address is the old length.\<close>

definition alloc :: "heap \<Rightarrow> obj \<Rightarrow> heap \<times> nat" where
  "alloc h ob = (h @ [ob], length h)"

text \<open>\<open>d[k] = v\<close> on an insertion-ordered dictionary: an existing key keeps its place.\<close>

fun setitem :: "(string \<times> val) list \<Rightarrow> string \<Rightarrow> val \<Rightarrow> (string \<times> val) list" where
  "setitem [] k v = [(k, v)]"
| "setitem ((k', v') # kvs) k v =
     (if k' = k then (k, v) # kvs else (k', v') # setitem kvs k v)"

text \<open>Truth value of a value (\<open>if data:\<close>). Only \<open>SafeNone\<close> defines \<open>__bool__\<close>.\<close>

definition truthy :: "heap \<Rightarrow> val \<Rightarrow> bool" where
  "truthy h v =
     (case v of
        VNone \<Rightarrow> False
      | VBool b \<Rightarrow> b
      | VInt i \<Rightarrow> i \<noteq> 0
      | VStr s \<Rightarrow> s \<noteq> []
      | VList xs \<Rightarrow> xs \<noteq> []
      | VDict kvs \<Rightarrow> kvs \<noteq> []
      | VRef r \<Rightarrow> (case deref h r of Some SafeNone \<Rightarrow> False | _ \<Rightarrow> True))"

section \<open>Construction\<close>

text \<open>
  \<open>self._data[key] = v\<close> followed by \<open>setattr(self._namespace, str(key), self._data[key])\<close>.
\<close>

definition store_entry :: "heap \<Rightarrow> nat \<Rightarrow> string \<Rightarrow> val \<Rightarrow> heap" where
  "store_entry h self k v =
     (case deref h self of
        Some (DotAccessDict d ns at) \<Rightarrow>
          h[self := DotAccessDict (setitem d k v) (setitem ns k v) at]
      | _ \<Rightarrow> h)"

text \<open>
  \<open>__init__\<close> allocates the instance and calls \<open>_update_from_dict\<close> on truthy data;
  \<open>_update_from_dict\<close> returns at once unless the data is a dictionary, and otherwise runs
  the loop \<open>update_loop\<close> over its items; \<open>wrap_list\<close> is the list comprehension.
\<close>

fun DotAccessDict_init :: "heap \<Rightarrow> val \<Rightarrow> heap \<times> nat"
  and update_from_dict :: "heap \<Rightarrow> nat \<Rightarrow> val \<Rightarrow> heap"
  and update_loop :: "heap \<Rightarrow> nat \<Rightarrow> (string \<times> val) list \<Rightarrow> heap"
  and wrap_list :: "heap \<Rightarrow> val list \<Rightarrow> heap \<times> val list"
where
  "DotAccessDict_init h dat =
     (let (h1, self) = alloc h (DotAccessDict [] [] [])
      in if truthy h1 dat then (update_from_dict h1 self dat, self) else (h1, self))"
| "update_from_dict h self (VDict items) = update_loop h self items"
| "update_from_dict h self VNone = h"
| "update_from_dict h self (VBool b) = h"
| "update_from_dict h self (VInt i) = h"
| "update_from_dict h self (VStr s) = h"
| "update_from_dict h self (VList xs) = h"
| "update_from_dict h self (VRef r) = h"
| "update_loop h self [] = h"
| "update_loop h self ((key, VDict kvs) # rest) =
     (let (h1, child) = DotAccessDict_init h (VDict kvs)
      in update_loop (store_entry h1 self key (VRef child)) self rest)"
| "update_loop h self ((key, VList xs) # rest) =
     (let (h1, ys) = wrap_list h xs
      in update_loop (store_entry h1 self key (VList ys)) self rest)"
| "update_loop h self ((key, VNone) # rest) =
     update_loop (store_entry h self key VNone) self rest"
| "update_loop h self ((key, VBool b) # rest) =
     update_loop (store_entry h self key (VBool b)) self rest"
| "update_loop h self ((key, VInt i) # rest) =
     update_loop (store_entry h self key (VInt i)) self rest"
| "update_loop h self ((key, VStr s) # rest) =
     update_loop (store_entry h self key (VStr s)) self rest"
| "update_loop h self ((key, VRef r) # rest) =
     update_loop (store_entry h self key (VRef r)) self rest"
| "wrap_list h [] = (h, [])"
| "wrap_list h (VDict kvs # items) =
     (let (h1, child) = DotAccessDict_init h (VDict kvs);
          (h2, ys) = wrap_list h1 items
      in (h2, VRef child # ys))"
| "wrap_list h (VNone # items) = (let (h2, ys) = wrap_list h items in (h2, VNone # ys))"
| "wrap_list h (VBool b # items) = (let (h2, ys) = wrap_list h items in (h2, VBool b # ys))"
| "wrap_list h (VInt i # items) = (let (h2, ys) = wrap_list h items in (h2, VInt i # ys))"
| "wrap_list h (VStr s # items) = (let (h2, ys) = wrap_list h items in (h2, VStr s # ys))"
| "wrap_list h (VList xs # items) = (let (h2, ys) = wrap_list h items in (h2, VList xs # ys))"
| "wrap_list h (VRef r # items) = (let (h2, ys) = wrap_list h items in (h2, VRef r # ys))"

section \<open>Attribute access and assignment\<close>

text \<open>
  Python looks an attribute up in the instance dictionary and in the class before it calls
  \<open>__getattr__\<close>. The two private fields, the methods of the class and the special
  attributes (\<open>__x__\<close>) are answered there; the model reports them as \<open>Internal\<close> and does
  not follow them further. Attributes of the built-in types other than \<open>None\<close> are the
  interpreter's and are reported as \<open>Internal\<close> too.
\<close>

definition is_dunder :: "string \<Rightarrow> bool" where
  "is_dunder p = (4 < length p \<and> take 2 p = ''__'' \<and> drop (length p - 2) p = ''__'')"

definition private_names :: "string list" where
  "private_names = [''_data'', ''_namespace'']"

definition method_names :: "string list" where
  "method_names = [''_update_from_dict'', ''get'', ''keys'', ''items'', ''values'', ''sort'']"

datatype lookup = Data val | Internal

text \<open>
  \<open>v.name\<close>. On a \<open>DotAccessDict\<close>, \<open>__getattr__\<close> asks the namespace and, on
  \<open>AttributeError\<close>, returns a newly allocated \<open>SafeNone\<close>. On a \<open>SafeNone\<close>,
  \<open>__getattr__\<close> returns \<open>None\<close>. \<open>None\<close> has no ordinary attribute.
\<close>

definition getattr :: "heap \<Rightarrow> val \<Rightarrow> string \<Rightarrow> error + (heap \<times> lookup)" where
  "getattr h v name =
     (case v of
        VRef r \<Rightarrow>
          (case deref h r of
             Some (DotAccessDict d ns at) \<Rightarrow>
               (case map_of at name of
                  Some x \<Rightarrow> Inr (h, Data x)
                | None \<Rightarrow>
                    if name \<in> set private_names \<or> name \<in> set method_names \<or> is_dunder name
                    then Inr (h, Internal)
                    else (case map_of ns name of
                            Some x \<Rightarrow> Inr (h, Data x)
                          | None \<Rightarrow> (let (h1, s) = alloc h SafeNone in Inr (h1, Data (VRef s)))))
           | Some SafeNone \<Rightarrow> if is_dunder name then Inr (h, Internal) else Inr (h, Data VNone)
           | None \<Rightarrow> Inr (h, Internal))
      | VNone \<Rightarrow> if is_dunder name then Inr (h, Internal) else Inl AttributeError
      | _ \<Rightarrow> Inr (h, Internal))"

text \<open>Chained access \<open>v.s1.s2...\<close>, left to right; it stops where a step raises.\<close>

fun getattr_chain :: "heap \<Rightarrow> val \<Rightarrow> string list \<Rightarrow> error + (heap \<times> lookup)" where
  "getattr_chain h v [] = Inr (h, Data v)"
| "getattr_chain h v (s # ss) =
     (case getattr h v s of
        Inl e \<Rightarrow> Inl e
      | Inr (h1, Internal) \<Rightarrow> Inr (h1, Internal)
      | Inr (h1, Data v1) \<Rightarrow> getattr_chain h1 v1 ss)"

text \<open>
  \<open>x.p = v\<close> on a \<open>DotAccessDict\<close>: the class defines no \<open>__setattr__\<close>, so the value goes
  into the instance dictionary. Rebinding a private field or a special attribute is outside
  the model (\<open>None\<close>), as is a target that is no accessor.
\<close>

definition setattr :: "heap \<Rightarrow> nat \<Rightarrow> string \<Rightarrow> val \<Rightarrow> heap option" where
  "setattr h r p v =
     (case deref h r of
        Some (DotAccessDict d ns at) \<Rightarrow>
          if p \<in> set private_names \<or> is_dunder p then None
          else Some (h[r := DotAccessDict d ns (setitem at p v)])
      | _ \<Rightarrow> None)"

section \<open>Enumeration\<close>

text \<open>
  \<open>x.keys()\<close>, \<open>x.items()\<close>, \<open>x.values()\<close> as call expressions: the method is looked up
  on the instance first, so an instance attribute of the same name shadows it, and calling
  that value raises \<open>TypeError\<close> (no value of the model is callable).
\<close>

definition dad_keys :: "heap \<Rightarrow> nat \<Rightarrow> error + string list" where
  "dad_keys h r =
     (case deref h r of
        Some (DotAccessDict d ns at) \<Rightarrow>
          if map_of at ''keys'' = None then Inr (map fst d) else Inl TypeError
      | _ \<Rightarrow> Inl TypeError)"

definition dad_items :: "heap \<Rightarrow> nat \<Rightarrow> error + (string \<times> val) list" where
  "dad_items h r =
     (case deref h r of
        Some (DotAccessDict d ns at) \<Rightarrow>
          if map_of at ''items'' = None then Inr d else Inl TypeError
      | _ \<Rightarrow> Inl TypeError)"

definition dad_values :: "heap \<Rightarrow> nat \<Rightarrow> error + val list" where
  "dad_values h r =
     (case deref h r of
        Some (DotAccessDict d ns at) \<Rightarrow>
          if map_of at ''values'' = None then Inr (map snd d) else Inl TypeError
      | _ \<Rightarrow> Inl TypeError)"

text \<open>\<open>x.get(key, default)\<close> as a call expression: \<open>self._data.get(key, default)\<close>.\<close>

definition dad_get :: "heap \<Rightarrow> nat \<Rightarrow> string \<Rightarrow> val \<Rightarrow> error + val" where
  "dad_get h r key dflt =
     (case deref h r of
        Some (DotAccessDict d ns at) \<Rightarrow>
          if map_of at ''get'' = None
          then Inr (case map_of d key of Some v \<Rightarrow> v | None \<Rightarrow> dflt)
          else Inl TypeError
      | _ \<Rightarrow> Inl TypeError)"

section \<open>Equality\<close>

text \<open>
  Python's \<open>==\<close>. The recursion follows addresses of the store, so it is bounded by a
  recursion budget, as the interpreter bounds it: \<open>RecursionError\<close> when it is used up.
  Containers compare their elements with an identity shortcut (\<open>rich_eq\<close>).
\<close>

definition scalar_eq :: "val \<Rightarrow> val \<Rightarrow> bool" where
  "scalar_eq a b =
     (case (a, b) of
        (VNone, VNone) \<Rightarrow> True
      | (VBool p, VBool q) \<Rightarrow> p = q
      | (VBool p, VInt j) \<Rightarrow> (if p then 1 else 0) = j
      | (VInt i, VBool q) \<Rightarrow> i = (if q then 1 else 0)
      | (VInt i, VInt j) \<Rightarrow> i = j
      | (VStr s, VStr t) \<Rightarrow> s = t
      | _ \<Rightarrow> False)"

definition rich_eq :: "(val \<Rightarrow> val \<Rightarrow> error + bool) \<Rightarrow> val \<Rightarrow> val \<Rightarrow> error + bool" where
  "rich_eq eq a b =
     (case (a, b) of
        (VRef x, VRef y) \<Rightarrow> if x = y then Inr True else eq a b
      | _ \<Rightarrow> eq a b)"

fun list_eq :: "(val \<Rightarrow> val \<Rightarrow> error + bool) \<Rightarrow> val list \<Rightarrow> val list \<Rightarrow> error + bool" where
  "list_eq eq [] [] = Inr True"
| "list_eq eq (x # xs) (y # ys) =
     (case rich_eq eq x y of
        Inl e \<Rightarrow> Inl e
      | Inr False \<Rightarrow> Inr False
      | Inr True \<Rightarrow> list_eq eq xs ys)"
| "list_eq eq [] (y # ys) = Inr False"
| "list_eq eq (x # xs) [] = Inr False"

fun items_eq :: "(val \<Rightarrow> val \<Rightarrow> error + bool) \<Rightarrow> (string \<times> val) list
                  \<Rightarrow> (string \<times> val) list \<Rightarrow> error + bool" where
  "items_eq eq [] [] = Inr True"
| "items_eq eq ((k, v) # xs) ((k', v') # ys) =
     (if k \<noteq> k' then Inr False
      else (case rich_eq eq v v' of
              Inl e \<Rightarrow> Inl e
            | Inr False \<Rightarrow> Inr False
            | Inr True \<Rightarrow> items_eq eq xs ys))"
| "items_eq eq [] (y # ys) = Inr False"
| "items_eq eq (x # xs) [] = Inr False"

fun dict_eq :: "(val \<Rightarrow> val \<Rightarrow> error + bool) \<Rightarrow> (string \<times> val) list
                 \<Rightarrow> (string \<times> val) list \<Rightarrow> error + bool" where
  "dict_eq eq [] ys = Inr True"
| "dict_eq eq ((k, v) # xs) ys =
     (case map_of ys k of
        None \<Rightarrow> Inr False
      | Some v' \<Rightarrow>
          (case rich_eq eq v v' of
             Inl e \<Rightarrow> Inl e
           | Inr False \<Rightarrow> Inr False
           | Inr True \<Rightarrow> dict_eq eq xs ys))"

fun py_eq :: "nat \<Rightarrow> heap \<Rightarrow> val \<Rightarrow> val \<Rightarrow> error + bool" where
  "py_eq 0 h a b = Inl RecursionError"
| "py_eq (Suc n) h a b =
     (case a of
        VRef x \<Rightarrow>
          (case deref h x of
             Some (DotAccessDict d ns at) \<Rightarrow>
               (case b of
                  VRef y \<Rightarrow>
                    (case deref h y of
                       Some (DotAccessDict d' ns' at') \<Rightarrow>
                         (case dad_items h x of
                            Inl e \<Rightarrow> Inl e
                          | Inr xs \<Rightarrow>
                              (case dad_items h y of
                                 Inl e \<Rightarrow> Inl e
                               | Inr ys \<Rightarrow>
                                   if length xs \<noteq> length ys then Inr False
                                   else items_eq (py_eq n h) xs ys))
                     | _ \<Rightarrow> Inr False)
                | _ \<Rightarrow> Inr False)
           | _ \<Rightarrow> (case b of VRef y \<Rightarrow> Inr (x = y) | _ \<Rightarrow> Inr False))
      | VList xs \<Rightarrow>
          (case b of
             VList ys \<Rightarrow> if length xs \<noteq> length ys then Inr False
                          else list_eq (py_eq n h) xs ys
           | _ \<Rightarrow> Inr False)
      | VDict xs \<Rightarrow>
          (case b of
             VDict ys \<Rightarrow> if length xs \<noteq> length ys then Inr False
                          else dict_eq (py_eq n h) xs ys
           | _ \<Rightarrow> Inr False)
      | _ \<Rightarrow> Inr (scalar_eq a b))"

section \<open>Deep sort\<close>

text \<open>
  \<open>sorted(xs, key=f, reverse=r)\<close>: a stable sort; with \<open>reverse\<close> the order is
  descending and elements with equal keys still keep their original order.
\<close>

definition py_sorted :: "('a \<Rightarrow> 'o::linorder) \<Rightarrow> bool \<Rightarrow> 'a list \<Rightarrow> 'a list" where
  "py_sorted f reverse xs = (if reverse then rev (sort_key f (rev xs)) else sort_key f xs)"

text \<open>
  \<open>sorted(self._data.items(), key=key, reverse=reverse)\<close>. Without a key function the
  items compare as tuples; the keys of a dictionary are distinct, so the first component
  decides.
\<close>

definition sorted_items ::
  "((string \<times> val) \<Rightarrow> 'o::linorder) option \<Rightarrow> bool \<Rightarrow> (string \<times> val) list
     \<Rightarrow> (string \<times> val) list" where
  "sorted_items key reverse xs =
     (case key of None \<Rightarrow> py_sorted fst reverse xs | Some f \<Rightarrow> py_sorted f reverse xs)"

text \<open>
  The list comprehension of \<open>sort\<close>: elements that are \<open>DotAccessDict\<close> instances are
  replaced by their sorted copies (\<open>rec\<close> is the recursive call), all others are kept.
\<close>

fun sort_seq :: "(heap \<Rightarrow> nat \<Rightarrow> error + (heap \<times> nat)) \<Rightarrow> heap \<Rightarrow> val list
                  \<Rightarrow> error + (heap \<times> val list)" where
  "sort_seq rec h [] = Inr (h, [])"
| "sort_seq rec h (VRef r # rest) =
     (case deref h r of
        Some (DotAccessDict d ns at) \<Rightarrow>
          (case rec h r of
             Inl e \<Rightarrow> Inl e
           | Inr (h1, s) \<Rightarrow>
               (case sort_seq rec h1 rest of
                  Inl e \<Rightarrow> Inl e
                | Inr (h2, ys) \<Rightarrow> Inr (h2, VRef s # ys)))
      | _ \<Rightarrow>
          (case sort_seq rec h rest of
             Inl e \<Rightarrow> Inl e
           | Inr (h2, ys) \<Rightarrow> Inr (h2, VRef r # ys)))"
| "sort_seq rec h (item # rest) =
     (case sort_seq rec h rest of
        Inl e \<Rightarrow> Inl e
      | Inr (h2, ys) \<Rightarrow> Inr (h2, item # ys))"

text \<open>The loop of \<open>sort\<close> over the sorted items, writing into the new instance \<open>result\<close>.\<close>

fun sort_loop :: "(heap \<Rightarrow> nat \<Rightarrow> error + (heap \<times> nat)) \<Rightarrow> heap \<Rightarrow> nat
                   \<Rightarrow> (string \<times> val) list \<Rightarrow> error + heap" where
  "sort_loop rec h result [] = Inr h"
| "sort_loop rec h result ((k, VRef r) # rest) =
     (case deref h r of
        Some (DotAccessDict d ns at) \<Rightarrow>
          (case rec h r of
             Inl e \<Rightarrow> Inl e
           | Inr (h1, s) \<Rightarrow> sort_loop rec (store_entry h1 result k (VRef s)) result rest)
      | _ \<Rightarrow> sort_loop rec (store_entry h result k (VRef r)) result rest)"
| "sort_loop rec h result ((k, VList xs) # rest) =
     (case sort_seq rec h xs of
        Inl e \<Rightarrow> Inl e
      | Inr (h1, ys) \<Rightarrow> sort_loop rec (store_entry h1 result k (VList ys)) result rest)"
| "sort_loop rec h result ((k, v) # rest) =
     sort_loop rec (store_entry h result k v) result rest"

text \<open>
  \<open>x.sort(key=key, reverse=reverse)\<close> as a call expression (an instance attribute named
  \<open>sort\<close> shadows the method). The recursion follows addresses of the store and is bounded
  by the recursion budget.
\<close>

fun dad_sort :: "((string \<times> val) \<Rightarrow> 'o::linorder) option \<Rightarrow> bool \<Rightarrow> nat \<Rightarrow> heap \<Rightarrow> nat
                  \<Rightarrow> error + (heap \<times> nat)" where
  "dad_sort key reverse 0 h r = Inl RecursionError"
| "dad_sort key reverse (Suc n) h r =
     (case deref h r of
        Some (DotAccessDict d ns at) \<Rightarrow>
          if map_of at ''sort'' \<noteq> None then Inl TypeError
          else
            (let sorted_its = sorted_items key reverse d;
                 (h1, result) = alloc h (DotAccessDict [] [] [])
             in (case sort_loop (dad_sort key reverse n) h1 result sorted_its of
                   Inl e \<Rightarrow> Inl e
                 | Inr h2 \<Rightarrow> Inr (h2, result)))
      | _ \<Rightarrow> Inl TypeError)"

section \<open>The Box variant\<close>

text \<open>
  \<open>Box\<close> is a third-party class; the model covers what this repository computes and hands
  to it. \<open>call_items\<close> is the call \<open>data.items()\<close> on an arbitrary value.
\<close>

definition call_items :: "heap \<Rightarrow> val \<Rightarrow> error + (string \<times> val) list" where
  "call_items h v =
     (case v of
        VDict kvs \<Rightarrow> Inr kvs
      | VRef r \<Rightarrow> dad_items h r
      | _ \<Rightarrow> Inl AttributeError)"

text \<open>
  \<open>create_ordered_box\<close>: the result is the \<open>OrderedDict(sorted(data.items()))\<close> that is
  passed to \<open>Box\<close>, which keeps the order of the mapping it is given.
\<close>

definition create_ordered_box :: "heap \<Rightarrow> val \<Rightarrow> error + (string \<times> val) list" where
  "create_ordered_box h dat =
     (case call_items h dat of
        Inl e \<Rightarrow> Inl e
      | Inr its \<Rightarrow> Inr (py_sorted fst False its))"

fun sort_nested_dictionary :: "val \<Rightarrow> val" where
  "sort_nested_dictionary (VDict kvs) =
     VDict (py_sorted fst False (map (\<lambda>(k, v). (k, sort_nested_dictionary v)) kvs))"
| "sort_nested_dictionary (VList xs) = VList (map sort_nested_dictionary xs)"
| "sort_nested_dictionary d = d"

section \<open>Trees: what the store represents\<close>

text \<open>
  The specification describes an accessor as a tree: an ordered mapping from keys to scalars,
  accessors and sequences. \<open>Leaf\<close> is a value kept as it is, \<open>Seq\<close> a sequence, \<open>Node\<close> an
  accessor. \<open>repr_from b h t v\<close> says that the value \<open>v\<close> represents the tree \<open>t\<close> in the
  store \<open>h\<close>, every accessor of it living at an address from \<open>b\<close> on, with its namespace
  mirroring its data and with none of its methods shadowed by an instance attribute.
\<close>

datatype tree = Leaf val | Seq "tree list" | Node "(string \<times> tree) list"

fun repr_from :: "nat \<Rightarrow> heap \<Rightarrow> tree \<Rightarrow> val \<Rightarrow> bool" where
  "repr_from b h (Leaf p) v = (v = p)"
| "repr_from b h (Seq ts) v =
     (case v of VList vs \<Rightarrow> list_all2 (repr_from b h) ts vs | _ \<Rightarrow> False)"
| "repr_from b h (Node kts) v =
     (case v of
        VRef r \<Rightarrow>
          b \<le> r \<and>
          (case deref h r of
             Some (DotAccessDict d ns at) \<Rightarrow>
               ns = d \<and> list_all (\<lambda>m. map_of at m = None) method_names \<and>
               map fst d = map fst kts \<and>
               list_all2 (repr_from b h) (map snd kts) (map snd d)
           | _ \<Rightarrow> False)
      | _ \<Rightarrow> False)"

text \<open>
  A parsed document: no object addresses in it, and the keys of every mapping distinct (as
  the keys of a Python dictionary are).
\<close>

fun document :: "val \<Rightarrow> bool" where
  "document (VList xs) = list_all document xs"
| "document (VDict kvs) = (distinct (map fst kvs) \<and> list_all document (map snd kvs))"
| "document (VRef r) = False"
| "document v = True"

fun vdepth :: "val \<Rightarrow> nat" where
  "vdepth (VList xs) = Suc (fold max (map vdepth xs) 0)"
| "vdepth (VDict kvs) = Suc (fold max (map vdepth (map snd kvs)) 0)"
| "vdepth v = 1"

fun depth :: "tree \<Rightarrow> nat" where
  "depth (Leaf p) = vdepth p"
| "depth (Seq ts) = Suc (fold max (map depth ts) 0)"
| "depth (Node kts) = Suc (fold max (map depth (map snd kts)) 0)"

text \<open>
  The trees that accessors built from documents represent: leaves are document values, a
  list stored under a key is a \<open>Seq\<close>, whose elements are accessors or leaves (\<open>in_seq\<close>
  tells the position), and the keys of a node are distinct.
\<close>

fun wf_tree :: "bool \<Rightarrow> tree \<Rightarrow> bool" where
  "wf_tree in_seq (Leaf p) =
     (document p \<and>
      (if in_seq then True else (case p of VList xs \<Rightarrow> False | VDict kvs \<Rightarrow> True | _ \<Rightarrow> True)))"
| "wf_tree in_seq (Seq ts) = (\<not> in_seq \<and> list_all (wf_tree True) ts)"
| "wf_tree in_seq (Node kts) =
     (distinct (map fst kts) \<and> list_all (wf_tree False) (map snd kts))"

text \<open>
  Construction as the specification words it (sections 3 and 4.1): every mapping becomes an
  accessor with the keys in the order of the source, every mapping that is an element of a
  sequence stored under a key becomes an accessor, everything else is kept.
\<close>

fun wrapped :: "bool \<Rightarrow> val \<Rightarrow> tree" where
  "wrapped in_seq (VDict kvs) = Node (map (\<lambda>kv. (fst kv, wrapped False (snd kv))) kvs)"
| "wrapped in_seq (VList xs) =
     (if in_seq then Leaf (VList xs) else Seq (map (wrapped True) xs))"
| "wrapped in_seq v = Leaf v"

text \<open>
  \<open>setattr\<close> on a \<open>SimpleNamespace\<close> puts a name into the instance dictionary of the
  namespace, except for the two names that are data descriptors of its type: for \<open>__class__\<close>
  it raises \<open>TypeError\<close> (the value is no class) and for \<open>__dict__\<close> it raises
  \<open>AttributeError\<close> (read-only). \<open>store_entry\<close> is the assignment for the other names, so
  the statements on construction are made for sources none of whose keys that become
  attributes of a namespace is one of these two (\<open>settable\<close>, on the wrapped source).
\<close>

definition reserved_names :: "string list" where
  "reserved_names = [''__class__'', ''__dict__'']"

fun settable :: "tree \<Rightarrow> bool" where
  "settable (Leaf p) = True"
| "settable (Seq ts) = list_all settable ts"
| "settable (Node kts) =
     (list_all (\<lambda>k. k \<notin> set reserved_names) (map fst kts) \<and> list_all settable (map snd kts))"

text \<open>
  Deep sort as the specification words it (section 4.6), without a comparator: at every
  level the entries are ordered by key, descending with \<open>reverse\<close>; accessors are sorted
  recursively; a sequence keeps its element order, its accessor elements sorted, the others
  unchanged.
\<close>

fun spec_sort :: "bool \<Rightarrow> tree \<Rightarrow> tree" where
  "spec_sort reverse (Leaf p) = Leaf p"
| "spec_sort reverse (Seq ts) = Seq (map (spec_sort reverse) ts)"
| "spec_sort reverse (Node kts) =
     Node (py_sorted fst reverse (map (\<lambda>kt. (fst kt, spec_sort reverse (snd kt))) kts))"

text \<open>
  Equality as the specification words it (section 4.5): two accessors are equal when they
  have the same keys in the same order and the values under them are equal, nested
  accessors by this same equality, sequences element by element; an accessor equals nothing
  that is no accessor. \<open>val_eq\<close> is the equality of the values that are kept as they are:
  scalars by value (a boolean equals the integer 0 or 1), lists element by element, plain
  dictionaries key by key, whatever the order of their keys.
\<close>

fun val_eq :: "val \<Rightarrow> val \<Rightarrow> bool" where
  "val_eq (VList xs) (VList ys) = list_all2 val_eq xs ys"
| "val_eq (VList xs) b = False"
| "val_eq (VDict xs) (VDict ys) =
     (length xs = length ys \<and>
      list_all (\<lambda>kv. case map_of ys (fst kv) of None \<Rightarrow> False | Some v' \<Rightarrow> val_eq (snd kv) v') xs)"
| "val_eq (VDict xs) b = False"
| "val_eq VNone b = scalar_eq VNone b"
| "val_eq (VBool p) b = scalar_eq (VBool p) b"
| "val_eq (VInt i) b = scalar_eq (VInt i) b"
| "val_eq (VStr s) b = scalar_eq (VStr s) b"
| "val_eq (VRef r) b = scalar_eq (VRef r) b"

fun tree_eq :: "tree \<Rightarrow> tree \<Rightarrow> bool" where
  "tree_eq (Leaf p) (Leaf q) = val_eq p q"
| "tree_eq (Seq ts) (Seq us) = list_all2 tree_eq ts us"
| "tree_eq (Node kts) (Node kus) =
     (map fst kts = map fst kus \<and> list_all2 tree_eq (map snd kts) (map snd kus))"
| "tree_eq t u = False"

text \<open>
  Trees whose leaves hold only \<open>None\<close>, integers, strings and lists of these: no booleans
  (which equal integers) and no plain dictionaries (which compare without order). On them
  equality is identity of the trees.
\<close>

fun plain_val :: "val \<Rightarrow> bool" where
  "plain_val VNone = True"
| "plain_val (VInt i) = True"
| "plain_val (VStr s) = True"
| "plain_val (VList xs) = list_all plain_val xs"
| "plain_val (VBool b) = False"
| "plain_val (VDict kvs) = False"
| "plain_val (VRef r) = False"

fun plain_tree :: "tree \<Rightarrow> bool" where
  "plain_tree (Leaf p) = plain_val p"
| "plain_tree (Seq ts) = list_all plain_tree ts"
| "plain_tree (Node kts) = list_all plain_tree (map snd kts)"

text \<open>
  What construction establishes, for use in the proofs: \<open>__init__\<close> returns the next free
  address, leaves the objects of the store as they were, and the new object represents the
  wrapped source; likewise for the list comprehension.
\<close>

definition init_ok :: "heap \<Rightarrow> val \<Rightarrow> bool" where
  "init_ok g v =
     (case DotAccessDict_init g v of
        (g', r) \<Rightarrow> r = length g \<and> length g < length g' \<and> take (length g) g' = g \<and>
                   repr_from (length g) g' (wrapped False v) (VRef r))"

definition wrap_ok :: "heap \<Rightarrow> val list \<Rightarrow> bool" where
  "wrap_ok g xs =
     (case wrap_list g xs of
        (g', ys) \<Rightarrow> length g \<le> length g' \<and> take (length g) g' = g \<and>
                    list_all2 (repr_from (length g) g') (map (wrapped True) xs) ys)"

text \<open>
  Sorted at every nesting level: the keys of every node ascend (descend with \<open>reverse\<close>).
  \<open>sorted_val\<close> says the same of the plain dictionaries the Box variant sorts.
\<close>

fun sorted_tree :: "bool \<Rightarrow> tree \<Rightarrow> bool" where
  "sorted_tree reverse (Leaf p) = True"
| "sorted_tree reverse (Seq ts) = list_all (sorted_tree reverse) ts"
| "sorted_tree reverse (Node kts) =
     ((if reverse then sorted (rev (map fst kts)) else sorted (map fst kts)) \<and>
      list_all (sorted_tree reverse) (map snd kts))"

fun sorted_val :: "val \<Rightarrow> bool" where
  "sorted_val (VDict kvs) = (sorted (map fst kvs) \<and> list_all sorted_val (map snd kvs))"
| "sorted_val (VList xs) = list_all sorted_val xs"
| "sorted_val v = True"

text \<open>
  A worked example: the store built from \<open>{b: {y: 1, x: 2}, a: [{d: 1, c: 2}, 3]}\<close>,
  the objects that sorting it adds, and those that sorting the sorted copy adds.
\<close>

definition example_source :: val where
  "example_source =
     VDict [(''b'', VDict [(''y'', VInt 1), (''x'', VInt 2)]),
            (''a'', VList [VDict [(''d'', VInt 1), (''c'', VInt 2)], VInt 3])]"

definition example_heap :: heap where
  "example_heap =
     [DotAccessDict [(''b'', VRef 1), (''a'', VList [VRef 2, VInt 3])]
                    [(''b'', VRef 1), (''a'', VList [VRef 2, VInt 3])] [],
      DotAccessDict [(''y'', VInt 1), (''x'', VInt 2)] [(''y'', VInt 1), (''x'', VInt 2)] [],
      DotAccessDict [(''d'', VInt 1), (''c'', VInt 2)] [(''d'', VInt 1), (''c'', VInt 2)] []]"

definition example_sorted :: heap where
  "example_sorted =
     [DotAccessDict [(''a'', VList [VRef 4, VInt 3]), (''b'', VRef 5)]
                    [(''a'', VList [VRef 4, VInt 3]), (''b'', VRef 5)] [],
      DotAccessDict [(''c'', VInt 2), (''d'', VInt 1)] [(''c'', VInt 2), (''d'', VInt 1)] [],
      DotAccessDict [(''x'', VInt 2), (''y'', VInt 1)] [(''x'', VInt 2), (''y'', VInt 1)] []]"

definition example_resorted :: heap where
  "example_resorted =
     [DotAccessDict [(''a'', VList [VRef 7, VInt 3]), (''b'', VRef 8)]
                    [(''a'', VList [VRef 7, VInt 3]), (''b'', VRef 8)] [],
      DotAccessDict [(''c'', VInt 2), (''d'', VInt 1)] [(''c'', VInt 2), (''d'', VInt 1)] [],
      DotAccessDict [(''x'', VInt 2), (''y'', VInt 1)] [(''x'', VInt 2), (''y'', VInt 1)] []]"

text \<open>
  A store for comparisons: the accessors built from \<open>{a: 1, b: {c: 2}}\<close> (at 0 and again
  at 2), from \<open>{a: 1, b: {c: 3}}\<close> (at 4), one with the entries of the first in the other
  order (at 6), and an absent value (at 7).
\<close>

definition eq_heap :: heap where
  "eq_heap =
     [DotAccessDict [(''a'', VInt 1), (''b'', VRef 1)] [(''a'', VInt 1), (''b'', VRef 1)] [],
      DotAccessDict [(''c'', VInt 2)] [(''c'', VInt 2)] [],
      DotAccessDict [(''a'', VInt 1), (''b'', VRef 3)] [(''a'', VInt 1), (''b'', VRef 3)] [],
      DotAccessDict [(''c'', VInt 2)] [(''c'', VInt 2)] [],
      DotAccessDict [(''a'', VInt 1), (''b'', VRef 5)] [(''a'', VInt 1), (''b'', VRef 5)] [],
      DotAccessDict [(''c'', VInt 3)] [(''c'', VInt 3)] [],
      DotAccessDict [(''b'', VRef 1), (''a'', VInt 1)] [(''b'', VRef 1), (''a'', VInt 1)] [],
      SafeNone]"

text \<open>
  The accessor built from \<open>{e: None}\<close>, before and after the assignment \<open>x.e = 42\<close>.
\<close>

definition unassigned :: heap where
  "unassigned = [DotAccessDict [(''e'', VNone)] [(''e'', VNone)] []]"

definition assigned :: heap where
  "assigned = [DotAccessDict [(''e'', VNone)] [(''e'', VNone)] [(''e'', VInt 42)]]"

section \<open>Chained access on missing segments\<close>

text \<open>
  C1. A chain of attribute accesses whose segments are all missing should never raise and
  should end in a falsy absent value. On the code this holds for one and for two missing
  segments only: the first access returns a new \<open>SafeNone\<close> (falsy), the second returns
  \<open>None\<close>, because \<open>SafeNone.__getattr__\<close> returns \<open>None\<close> and not a \<open>SafeNone\<close>, and the
  third access is made on \<open>None\<close> and raises \<open>AttributeError\<close>. The theorem runs the code on
  the accessor built from an empty mapping.
\<close>

theorem C1_chain_of_three_missing_segments_raises:
  "getattr_chain (fst (DotAccessDict_init [] (VDict []))) (VRef 0) [''seg1''] =
      Inr ([DotAccessDict [] [] [], SafeNone], Data (VRef 1))
   \<and> \<not> truthy [DotAccessDict [] [] [], SafeNone] (VRef 1)
   \<and> getattr_chain (fst (DotAccessDict_init [] (VDict []))) (VRef 0) [''seg1'', ''seg2''] =
      Inr ([DotAccessDict [] [] [], SafeNone], Data VNone)
   \<and> getattr_chain (fst (DotAccessDict_init [] (VDict []))) (VRef 0)
        [''seg1'', ''seg2'', ''seg3''] = Inl AttributeError"
  by (simp add: alloc_def truthy_def getattr_def deref_def is_dunder_def private_names_def
      method_names_def)

section \<open>Construction from a source that is no mapping\<close>

text \<open>
  C3, as stated for both variants, fails on the Box variant: \<open>create_ordered_box\<close> calls
  \<open>data.items()\<close> without a guard, so \<open>None\<close> raises \<open>AttributeError\<close>.
\<close>

theorem C3_box_constructor_raises_on_None:
  "create_ordered_box [] VNone = Inl AttributeError"
  by (simp add: create_ordered_box_def call_items_def)

text \<open>
  C3, amended. For \<open>DotAccessDict\<close>, construction from \<open>None\<close>, a scalar, a sequence or
  any other value that is no mapping returns a new accessor without keys and does not
  raise. \<open>create_ordered_box\<close> raises \<open>AttributeError\<close> on \<open>None\<close>, a scalar or a sequence.
\<close>

theorem C3_non_mapping_source:
  "DotAccessDict_init h VNone = (h @ [DotAccessDict [] [] []], length h)
   \<and> DotAccessDict_init h (VBool b) = (h @ [DotAccessDict [] [] []], length h)
   \<and> DotAccessDict_init h (VInt i) = (h @ [DotAccessDict [] [] []], length h)
   \<and> DotAccessDict_init h (VStr s) = (h @ [DotAccessDict [] [] []], length h)
   \<and> DotAccessDict_init h (VList xs) = (h @ [DotAccessDict [] [] []], length h)
   \<and> DotAccessDict_init h (VRef r) = (h @ [DotAccessDict [] [] []], length h)
   \<and> dad_keys (h @ [DotAccessDict [] [] []]) (length h) = Inr []
   \<and> create_ordered_box h VNone = Inl AttributeError
   \<and> create_ordered_box h (VBool b) = Inl AttributeError
   \<and> create_ordered_box h (VInt i) = Inl AttributeError
   \<and> create_ordered_box h (VStr s) = Inl AttributeError
   \<and> create_ordered_box h (VList xs) = Inl AttributeError"
  by (simp add: alloc_def dad_keys_def deref_def create_ordered_box_def call_items_def)

theorem C3_non_mapping_source_witness:
  "DotAccessDict_init [] (VList [VInt 1, VDict [(''a'', VNone)]]) = ([DotAccessDict [] [] []], 0)
   \<and> DotAccessDict_init [] (VInt 7) = ([DotAccessDict [] [] []], 0)
   \<and> dad_keys [DotAccessDict [] [] []] 0 = Inr []
   \<and> create_ordered_box [] (VList [VInt 1, VDict [(''a'', VNone)]]) = Inl AttributeError"
  using C3_non_mapping_source [of "[]" False 7 "[]" "[VInt 1, VDict [(''a'', VNone)]]" 0]
  by simp

section \<open>Assignment\<close>

lemma map_of_setitem_same: "map_of (setitem at p v) p = Some v"
  by (induction at p v rule: setitem.induct) auto

lemma map_of_setitem_other: "q \<noteq> p \<Longrightarrow> map_of (setitem at p v) q = map_of at q"
  by (induction at p v rule: setitem.induct) auto

text \<open>
  C8, as stated, fails where it says that any prior value under \<open>p\<close> is overwritten. On the
  accessor built from \<open>{e: None}\<close>, after \<open>x.e = 42\<close> the access \<open>x.e\<close> returns 42, but
  the value the accessor holds under \<open>e\<close> is still \<open>None\<close>: \<open>items()\<close>, \<open>values()\<close> and
  \<open>get('e')\<close> return it, and the sorted copy \<open>x.sort()\<close> holds \<open>None\<close> under \<open>e\<close> and
  answers \<open>.e\<close> with \<open>None\<close>.
\<close>

theorem C8_assignment_leaves_the_stored_value:
  "DotAccessDict_init [] (VDict [(''e'', VNone)]) = (unassigned, 0)
   \<and> setattr unassigned 0 ''e'' (VInt 42) = Some assigned
   \<and> getattr assigned (VRef 0) ''e'' = Inr (assigned, Data (VInt 42))
   \<and> dad_items assigned 0 = Inr [(''e'', VNone)]
   \<and> dad_values assigned 0 = Inr [VNone]
   \<and> dad_get assigned 0 ''e'' (VInt 0) = Inr VNone
   \<and> dad_sort (None :: (string \<times> val \<Rightarrow> unit) option) False 2 assigned 0
       = Inr (assigned @ [DotAccessDict [(''e'', VNone)] [(''e'', VNone)] []], 1)
   \<and> getattr (assigned @ [DotAccessDict [(''e'', VNone)] [(''e'', VNone)] []]) (VRef 1) ''e''
       = Inr (assigned @ [DotAccessDict [(''e'', VNone)] [(''e'', VNone)] []], Data VNone)"
  by (simp add: unassigned_def assigned_def DotAccessDict_init.simps alloc_def truthy_def
      store_entry_def deref_def setattr_def getattr_def private_names_def method_names_def
      is_dunder_def dad_items_def dad_values_def dad_get_def sorted_items_def py_sorted_def
      eval_nat_numeral)

text \<open>
  C8, amended. After \<open>x.p = v\<close> on an accessor \<open>x\<close>, the value \<open>v\<close> is stored as it is (no
  wrapping) in the instance dictionary of \<open>x\<close>, where it replaces an attribute assigned
  under \<open>p\<close> before and leaves the other attributes alone, and the access \<open>x.p\<close> that
  follows returns \<open>v\<close> and leaves the store as it is. The ordered store and the namespace of
  \<open>x\<close> are not written to: a value that the accessor holds under \<open>p\<close> is shadowed, not
  overwritten, and \<open>get(p)\<close> still returns it. No other object changes. The names \<open>p\<close>
  are all those the model of assignment covers: every name but the two private fields and
  the special attributes.
\<close>

theorem C8_assignment_shadows_the_stored_value:
  assumes "deref h r = Some (DotAccessDict d ns at)"
    and "p \<notin> set private_names" and "\<not> is_dunder p"
  shows "setattr h r p v = Some (h[r := DotAccessDict d ns (setitem at p v)])
     \<and> deref (h[r := DotAccessDict d ns (setitem at p v)]) r
         = Some (DotAccessDict d ns (setitem at p v))
     \<and> map_of (setitem at p v) p = Some v
     \<and> (\<forall>q. q \<noteq> p \<longrightarrow> map_of (setitem at p v) q = map_of at q)
     \<and> getattr (h[r := DotAccessDict d ns (setitem at p v)]) (VRef r) p
         = Inr (h[r := DotAccessDict d ns (setitem at p v)], Data v)
     \<and> (p \<noteq> ''get'' \<longrightarrow>
          dad_get (h[r := DotAccessDict d ns (setitem at p v)]) r key dflt = dad_get h r key dflt)
     \<and> (\<forall>x. x \<noteq> r \<longrightarrow> deref (h[r := DotAccessDict d ns (setitem at p v)]) x = deref h x)"
proof -
  from assms(1) have rl: "r < length h" by (auto simp: deref_def split: if_splits)
  have 1: "setattr h r p v = Some (h[r := DotAccessDict d ns (setitem at p v)])"
    using assms by (simp add: setattr_def)
  have 2: "deref (h[r := DotAccessDict d ns (setitem at p v)]) r
         = Some (DotAccessDict d ns (setitem at p v))"
    using rl by (simp add: deref_def)
  have 3: "map_of (setitem at p v) p = Some v" by (rule map_of_setitem_same)
  have 4: "\<forall>q. q \<noteq> p \<longrightarrow> map_of (setitem at p v) q = map_of at q"
    by (simp add: map_of_setitem_other)
  have 5: "getattr (h[r := DotAccessDict d ns (setitem at p v)]) (VRef r) p
         = Inr (h[r := DotAccessDict d ns (setitem at p v)], Data v)"
    using 2 3 by (simp add: getattr_def)
  have 6: "p \<noteq> ''get'' \<longrightarrow>
          dad_get (h[r := DotAccessDict d ns (setitem at p v)]) r key dflt = dad_get h r key dflt"
    using assms(1) 2 by (simp add: dad_get_def map_of_setitem_other)
  have 7: "\<forall>x. x \<noteq> r \<longrightarrow> deref (h[r := DotAccessDict d ns (setitem at p v)]) x = deref h x"
    by (simp add: deref_def)
  from 1 2 3 4 5 6 7 show ?thesis by (intro conjI)
qed

theorem C8_assignment_shadows_the_stored_value_witness:
  "setattr unassigned 0 ''e'' (VDict [(''k'', VInt 42)])
     = Some [DotAccessDict [(''e'', VNone)] [(''e'', VNone)] [(''e'', VDict [(''k'', VInt 42)])]]
   \<and> getattr [DotAccessDict [(''e'', VNone)] [(''e'', VNone)] [(''e'', VDict [(''k'', VInt 42)])]]
        (VRef 0) ''e''
     = Inr ([DotAccessDict [(''e'', VNone)] [(''e'', VNone)] [(''e'', VDict [(''k'', VInt 42)])]],
            Data (VDict [(''k'', VInt 42)]))
   \<and> dad_get unassigned 0 ''e'' (VInt 0) = Inr VNone
   \<and> dad_get [DotAccessDict [(''e'', VNone)] [(''e'', VNone)] [(''e'', VDict [(''k'', VInt 42)])]]
        0 ''e'' (VInt 0) = Inr VNone"
  using C8_assignment_shadows_the_stored_value [of unassigned 0
      "[(''e'', VNone)]" "[(''e'', VNone)]" "[]" "''e''" "VDict [(''k'', VInt 42)]" "''e''" "VInt 0"]
  by (simp add: unassigned_def deref_def private_names_def is_dunder_def dad_get_def)

section \<open>Absent values\<close>

text \<open>
  C9, as stated, fails: two accesses to missing segments of one accessor return two
  \<open>SafeNone\<close> instances that do not compare equal (\<open>SafeNone\<close> defines no \<open>__eq__\<close>, so
  equality is identity).
\<close>

theorem C9_two_absent_values_are_not_equal:
  "getattr [DotAccessDict [] [] []] (VRef 0) ''a''
      = Inr ([DotAccessDict [] [] [], SafeNone], Data (VRef 1))
   \<and> getattr [DotAccessDict [] [] [], SafeNone] (VRef 0) ''b''
      = Inr ([DotAccessDict [] [] [], SafeNone, SafeNone], Data (VRef 2))
   \<and> py_eq 5 [DotAccessDict [] [] [], SafeNone, SafeNone] (VRef 1) (VRef 2) = Inr False"
  by (simp add: getattr_def deref_def alloc_def private_names_def method_names_def is_dunder_def
      eval_nat_numeral)

text \<open>
  C9, amended. Any two absent values behave alike: each is falsy and each answers every
  ordinary attribute access with \<open>None\<close>; but they compare equal exactly when they are one
  and the same instance.
\<close>

theorem C9_absent_values_alike_but_distinct:
  assumes "deref h a = Some SafeNone" and "deref h b = Some SafeNone" and "\<not> is_dunder name"
  shows "py_eq (Suc n) h (VRef a) (VRef b) = Inr (a = b)
     \<and> \<not> truthy h (VRef a) \<and> \<not> truthy h (VRef b)
     \<and> getattr h (VRef a) name = Inr (h, Data VNone)
     \<and> getattr h (VRef b) name = Inr (h, Data VNone)"
  using assms by (simp add: truthy_def getattr_def)

theorem C9_absent_values_alike_but_distinct_witness:
  "py_eq (Suc 0) [DotAccessDict [] [] [], SafeNone, SafeNone] (VRef 1) (VRef 2) = Inr False
   \<and> py_eq (Suc 0) [DotAccessDict [] [] [], SafeNone, SafeNone] (VRef 1) (VRef 1) = Inr True
   \<and> \<not> truthy [DotAccessDict [] [] [], SafeNone, SafeNone] (VRef 1)
   \<and> getattr [DotAccessDict [] [] [], SafeNone, SafeNone] (VRef 2) ''x''
       = Inr ([DotAccessDict [] [] [], SafeNone, SafeNone], Data VNone)"
  using C9_absent_values_alike_but_distinct
      [of "[DotAccessDict [] [] [], SafeNone, SafeNone]" 1 2 "''x''" 0]
    C9_absent_values_alike_but_distinct
      [of "[DotAccessDict [] [] [], SafeNone, SafeNone]" 1 1 "''x''" 0]
  by (simp add: deref_def is_dunder_def)

text \<open>
  Every access to a name that an accessor does not answer returns an absent value that did
  not exist before: the store grows by one \<open>SafeNone\<close>, whose address is returned.
\<close>

lemma missing_access_allocates:
  assumes "deref h r = Some (DotAccessDict d ns at)"
    and "map_of at name = None" and "map_of ns name = None"
    and "name \<notin> set private_names" and "name \<notin> set method_names" and "\<not> is_dunder name"
  shows "getattr h (VRef r) name = Inr (h @ [SafeNone], Data (VRef (length h)))"
  using assms by (simp add: getattr_def alloc_def)

section \<open>Equality of item lists\<close>

lemma items_eq_True_iff:
  "(items_eq eq xs ys = Inr True) =
   (map fst xs = map fst ys \<and>
    list_all2 (\<lambda>v v'. rich_eq eq v v' = Inr True) (map snd xs) (map snd ys))"
  by (induction eq xs ys rule: items_eq.induct) (auto split: sum.splits bool.splits)

section \<open>Construction keeps the order of the source\<close>

lemma deref_SomeD: "deref h r = Some ob \<Longrightarrow> r < length h \<and> h ! r = ob"
  by (auto simp: deref_def split: if_splits)

lemma store_entry_length [simp]: "length (store_entry h s k v) = length h"
  by (simp add: store_entry_def split: option.splits obj.splits)

lemma store_entry_nth_other: "x \<noteq> s \<Longrightarrow> store_entry h s k v ! x = h ! x"
  by (simp add: store_entry_def split: option.splits obj.splits)

lemma store_entry_self:
  "deref h s = Some (DotAccessDict d ns at) \<Longrightarrow>
   deref (store_entry h s k v) s = Some (DotAccessDict (setitem d k v) (setitem ns k v) at)"
  by (auto simp: store_entry_def deref_def split: if_splits)

lemma setitem_fresh: "k \<notin> set (map fst d) \<Longrightarrow> setitem d k v = d @ [(k, v)]"
  by (induction d k v rule: setitem.induct) auto

lemma take_eq_nth: "take (length h) h' = h \<Longrightarrow> x < length h \<Longrightarrow> h' ! x = h ! x"
  by (metis nth_take)

lemma take_eq_length: "take (length h) h' = h \<Longrightarrow> length h \<le> length h'"
  by (metis length_take min.cobounded2 min.commute)

lemma take_eqI:
  "length h \<le> length h' \<Longrightarrow> (\<And>x. x < length h \<Longrightarrow> h' ! x = h ! x) \<Longrightarrow> take (length h) h' = h"
  by (rule nth_equalityI) auto



lemma deref_append: "deref h x = Some ob \<Longrightarrow> deref (h @ hs) x = Some ob"
  by (auto simp: deref_def nth_append split: if_splits)

lemma repr_from_frame:
  "repr_from b h t v \<Longrightarrow> length h \<le> length h' \<Longrightarrow>
   (\<And>x. b \<le> x \<Longrightarrow> x < length h \<Longrightarrow> h' ! x = h ! x) \<Longrightarrow> repr_from b h' t v"
proof (induction t arbitrary: v)
  case (Leaf p)
  then show ?case by simp
next
  case (Seq ts)
  then show ?case
    by (auto split: val.splits elim!: list.rel_mono_strong)
next
  case (Node kts)
  from Node.prems(1) obtain r d at where v: "v = VRef r" and br: "b \<le> r"
    and dr: "deref h r = Some (DotAccessDict d d at)"
    and sh: "list_all (\<lambda>m. map_of at m = None) method_names"
    and ks: "map fst d = map fst kts"
    and ch: "list_all2 (repr_from b h) (map snd kts) (map snd d)"
    by (auto split: val.splits option.splits obj.splits)
  from dr have rl: "r < length h" and hr: "h ! r = DotAccessDict d d at"
    by (auto simp: deref_def split: if_splits)
  have dr': "deref h' r = Some (DotAccessDict d d at)"
    using rl hr br Node.prems(2,3) by (simp add: deref_def)
  have "list_all2 (repr_from b h') (map snd kts) (map snd d)"
    using ch
  proof (rule list.rel_mono_strong)
    fix t w assume "t \<in> set (map snd kts)" "repr_from b h t w"
    then show "repr_from b h' t w"
      using Node.IH Node.prems(2,3) by (auto simp: snds.simps)
  qed
  then show ?case using v br dr' sh ks by simp
qed

lemma repr_from_weaken:
  "repr_from b h t v \<Longrightarrow> b' \<le> b \<Longrightarrow> repr_from b' h t v"
proof (induction t arbitrary: v)
  case (Leaf p)
  then show ?case by simp
next
  case (Seq ts)
  then show ?case
    by (auto split: val.splits elim!: list.rel_mono_strong)
next
  case (Node kts)
  from Node.prems(1) obtain r d at where v: "v = VRef r" and br: "b \<le> r"
    and dr: "deref h r = Some (DotAccessDict d d at)"
    and sh: "list_all (\<lambda>m. map_of at m = None) method_names"
    and ks: "map fst d = map fst kts"
    and ch: "list_all2 (repr_from b h) (map snd kts) (map snd d)"
    by (auto split: val.splits option.splits obj.splits)
  have "list_all2 (repr_from b' h) (map snd kts) (map snd d)"
    using ch
  proof (rule list.rel_mono_strong)
    fix t w assume "t \<in> set (map snd kts)" "repr_from b h t w"
    then show "repr_from b' h t w"
      using Node.IH Node.prems(2) by (auto simp: snds.simps)
  qed
  then show ?case using v br dr sh ks Node.prems(2) by simp
qed


lemma store_entry_repr:
  assumes "repr_from (Suc self) h t v"
  shows "repr_from (Suc self) (store_entry h self k w) t v"
  using assms by (rule repr_from_frame) (simp_all add: store_entry_nth_other)

lemma repr_from_extend:
  assumes "repr_from b h t v" and "take (length h) h' = h"
  shows "repr_from b h' t v"
  using assms(1)
  by (rule repr_from_frame) (use assms(2) in \<open>auto simp: take_eq_length take_eq_nth\<close>)

lemma store_entry_step:
  assumes self: "deref h self = Some (DotAccessDict d d at)"
    and ch: "list_all2 (repr_from (Suc self) h) ts (map snd d)"
    and new: "repr_from (Suc self) h t w"
    and fresh: "k \<notin> set (map fst d)"
  shows "deref (store_entry h self k w) self
           = Some (DotAccessDict (d @ [(k, w)]) (d @ [(k, w)]) at)
     \<and> list_all2 (repr_from (Suc self) (store_entry h self k w)) (ts @ [t])
          (map snd (d @ [(k, w)]))"
proof -
  have 1: "deref (store_entry h self k w) self
           = Some (DotAccessDict (d @ [(k, w)]) (d @ [(k, w)]) at)"
    using store_entry_self [OF self, of k w] fresh by (simp add: setitem_fresh)
  have 2: "list_all2 (repr_from (Suc self) (store_entry h self k w)) ts (map snd d)"
    using ch by (rule list_all2_mono) (rule store_entry_repr)
  have 3: "repr_from (Suc self) (store_entry h self k w) t w"
    using new by (rule store_entry_repr)
  from 1 2 3 show ?thesis by (simp add: list_all2_appendI)
qed


declare DotAccessDict_init.simps [simp del]

lemma update_loop_step:
  assumes IHd: "\<And>kvs. v = VDict kvs \<Longrightarrow> init_ok h v"
    and IHl: "\<And>xs. v = VList xs \<Longrightarrow> wrap_ok h xs"
    and doc: "document v"
    and self: "self < length h"
  shows "\<exists>g' w. update_loop h self ((k, v) # rest)
                   = update_loop (store_entry g' self k w) self rest
               \<and> take (length h) g' = h
               \<and> repr_from (Suc self) g' (wrapped False v) w"
proof (cases v)
  case (VDict kvs)
  obtain g' c where i: "DotAccessDict_init h (VDict kvs) = (g', c)" by force
  from IHd [OF VDict] i VDict
  have ok: "c = length h" "take (length h) g' = h"
    "repr_from (length h) g' (wrapped False v) (VRef c)"
    by (auto simp: init_ok_def simp del: repr_from.simps)
  have "repr_from (Suc self) g' (wrapped False v) (VRef c)"
    using ok(3) self by (auto intro: repr_from_weaken)
  moreover have "update_loop h self ((k, v) # rest)
      = update_loop (store_entry g' self k (VRef c)) self rest"
    using VDict i by simp
  ultimately show ?thesis using ok(2) by blast
next
  case (VList xs)
  obtain g' ys where w: "wrap_list h xs = (g', ys)" by force
  from doc VList have "list_all document xs" by simp
  from IHl [OF VList] w
  have ok: "take (length h) g' = h"
    "list_all2 (repr_from (length h) g') (map (wrapped True) xs) ys"
    by (auto simp: wrap_ok_def simp del: repr_from.simps)
  have "list_all2 (repr_from (Suc self) g') (map (wrapped True) xs) ys"
    using ok(2) by (rule list_all2_mono) (use self in \<open>auto intro: repr_from_weaken\<close>)
  then have "repr_from (Suc self) g' (wrapped False v) (VList ys)"
    using VList by simp
  moreover have "update_loop h self ((k, v) # rest)
      = update_loop (store_entry g' self k (VList ys)) self rest"
    using VList w by simp
  ultimately show ?thesis using ok(1) by blast
next
  case (VRef r)
  with doc show ?thesis by simp
qed (rule exI [of _ h], rule exI [of _ v], simp)+


lemma update_loop_spec:
  assumes IHd: "\<And>k kvs g. (k, VDict kvs) \<in> set items \<Longrightarrow> init_ok g (VDict kvs)"
    and IHl: "\<And>k xs g. (k, VList xs) \<in> set items \<Longrightarrow> wrap_ok g xs"
    and self: "deref h self = Some (DotAccessDict d d at)"
    and dist: "distinct (map fst d @ map fst items)"
    and doc: "list_all document (map snd items)"
    and ch: "list_all2 (repr_from (Suc self) h) ts (map snd d)"
  shows "\<exists>d'. length h \<le> length (update_loop h self items)
          \<and> (\<forall>x<length h. x \<noteq> self \<longrightarrow> update_loop h self items ! x = h ! x)
          \<and> deref (update_loop h self items) self = Some (DotAccessDict d' d' at)
          \<and> map fst d' = map fst d @ map fst items
          \<and> list_all2 (repr_from (Suc self) (update_loop h self items))
               (ts @ map (\<lambda>kv. wrapped False (snd kv)) items) (map snd d')"
  using assms
proof (induction items arbitrary: h d ts)
  case Nil
  then show ?case by (auto simp del: repr_from.simps)
next
  case (Cons kv rest)
  obtain k v where kv: "kv = (k, v)" by (cases kv)
  from Cons.prems(3) have sl: "self < length h" by (auto dest: deref_SomeD)
  have "\<exists>g' w. update_loop h self ((k, v) # rest)
                   = update_loop (store_entry g' self k w) self rest
               \<and> take (length h) g' = h
               \<and> repr_from (Suc self) g' (wrapped False v) w"
  proof (rule update_loop_step)
    fix kvs assume "v = VDict kvs"
    then show "init_ok h v" using Cons.prems(1) [of k kvs h] kv by simp
  next
    fix xs assume "v = VList xs"
    then show "wrap_ok h xs" using Cons.prems(2) [of k xs h] kv by simp
  next
    show "document v" using Cons.prems(5) kv by simp
  next
    show "self < length h" by (rule sl)
  qed
  then obtain g' w where step: "update_loop h self ((k, v) # rest)
                   = update_loop (store_entry g' self k w) self rest"
    and pre: "take (length h) g' = h"
    and rw: "repr_from (Suc self) g' (wrapped False v) w"
    by blast
  let ?h1 = "store_entry g' self k w"
  have lg: "length h \<le> length g'" using pre by (rule take_eq_length)
  have dg: "deref g' self = Some (DotAccessDict d d at)"
    using Cons.prems(3) pre sl lg by (auto simp: deref_def take_eq_nth)
  have chg: "list_all2 (repr_from (Suc self) g') ts (map snd d)"
    using Cons.prems(6) by (rule list_all2_mono) (rule repr_from_extend [OF _ pre])
  have fresh: "k \<notin> set (map fst d)" using Cons.prems(4) kv by auto
  from store_entry_step [OF dg chg rw fresh]
  have d1: "deref ?h1 self = Some (DotAccessDict (d @ [(k, w)]) (d @ [(k, w)]) at)"
    and ch1: "list_all2 (repr_from (Suc self) ?h1) (ts @ [wrapped False v])
                (map snd (d @ [(k, w)]))"
    by blast+
  have dist1: "distinct (map fst (d @ [(k, w)]) @ map fst rest)"
    using Cons.prems(4) kv by auto
  have doc1: "list_all document (map snd rest)" using Cons.prems(5) by simp
  from Cons.IH [OF _ _ d1 dist1 doc1 ch1] Cons.prems(1,2)
  obtain d' where res: "length ?h1 \<le> length (update_loop ?h1 self rest)"
    "\<forall>x<length ?h1. x \<noteq> self \<longrightarrow> update_loop ?h1 self rest ! x = ?h1 ! x"
    "deref (update_loop ?h1 self rest) self = Some (DotAccessDict d' d' at)"
    "map fst d' = map fst (d @ [(k, w)]) @ map fst rest"
    "list_all2 (repr_from (Suc self) (update_loop ?h1 self rest))
       ((ts @ [wrapped False v]) @ map (\<lambda>kv. wrapped False (snd kv)) rest) (map snd d')"
    by (metis list.set_intros(2))
  have fr: "\<forall>x<length h. x \<noteq> self \<longrightarrow> update_loop ?h1 self rest ! x = h ! x"
  proof (intro allI impI)
    fix x assume x: "x < length h" "x \<noteq> self"
    then have "update_loop ?h1 self rest ! x = ?h1 ! x" using res(2) lg by simp
    also have "\<dots> = g' ! x" using x by (simp add: store_entry_nth_other)
    also have "\<dots> = h ! x" using pre x by (simp add: take_eq_nth)
    finally show "update_loop ?h1 self rest ! x = h ! x" .
  qed
  show ?case
    unfolding kv step
    using res(1,3,4,5) fr lg
    by (intro exI [of _ d']) (simp del: repr_from.simps)
qed

lemma wrap_list_spec:
  assumes IHd: "\<And>kvs g. VDict kvs \<in> set xs \<Longrightarrow> init_ok g (VDict kvs)"
  shows "wrap_ok h xs"
  using assms
proof (induction xs arbitrary: h)
  case Nil
  then show ?case by (simp add: wrap_ok_def)
next
  case (Cons x xs)
  have IH: "\<And>g. wrap_ok g xs" using Cons by simp
  show ?case
  proof (cases x)
    case (VDict kvs)
    obtain h1 c where i: "DotAccessDict_init h (VDict kvs) = (h1, c)" by force
    obtain h2 ys where w: "wrap_list h1 xs = (h2, ys)" by force
    from Cons.prems [of kvs h] VDict i
    have ok: "c = length h" "length h < length h1" "take (length h) h1 = h"
      "repr_from (length h) h1 (wrapped False (VDict kvs)) (VRef c)"
      by (auto simp: init_ok_def simp del: repr_from.simps)
    from IH [of h1] w
    have ok2: "length h1 \<le> length h2" "take (length h1) h2 = h1"
      "list_all2 (repr_from (length h1) h2) (map (wrapped True) xs) ys"
      by (auto simp: wrap_ok_def simp del: repr_from.simps)
    have "take (length h) h2 = take (length h) (take (length h1) h2)"
      using ok(2) by (simp add: min_def)
    then have t: "take (length h) h2 = h"
      using ok(3) ok2(2) by simp
    have r1: "repr_from (length h) h2 (wrapped True x) (VRef c)"
      using repr_from_extend [OF ok(4) ok2(2)] VDict by simp
    have r2: "list_all2 (repr_from (length h) h2) (map (wrapped True) xs) ys"
      using ok2(3) by (rule list_all2_mono) (use ok(2) in \<open>auto intro: repr_from_weaken\<close>)
    show ?thesis
      using VDict i w t r1 r2 ok(2) ok2(1)
      by (simp add: wrap_ok_def del: repr_from.simps)
  qed (use IH [of h] in \<open>auto simp: wrap_ok_def split: prod.splits simp del: repr_from.simps(2,3)\<close>)
qed

lemma init_spec:
  assumes IHd: "\<And>k kvs' g. (k, VDict kvs') \<in> set kvs \<Longrightarrow> init_ok g (VDict kvs')"
    and IHl: "\<And>k xs g. (k, VList xs) \<in> set kvs \<Longrightarrow> wrap_ok g xs"
    and doc: "document (VDict kvs)"
  shows "init_ok h (VDict kvs)"
proof -
  let ?h1 = "h @ [DotAccessDict [] [] []]"
  let ?self = "length h"
  let ?h' = "update_loop ?h1 ?self kvs"
  have i: "DotAccessDict_init h (VDict kvs) = (?h', ?self)"
    by (cases kvs) (simp_all add: DotAccessDict_init.simps alloc_def truthy_def)
  have d0: "deref ?h1 ?self = Some (DotAccessDict [] [] [])" by (simp add: deref_def)
  have "\<exists>d'. length ?h1 \<le> length ?h'
          \<and> (\<forall>x<length ?h1. x \<noteq> ?self \<longrightarrow> ?h' ! x = ?h1 ! x)
          \<and> deref ?h' ?self = Some (DotAccessDict d' d' [])
          \<and> map fst d' = map fst ([] :: (string \<times> val) list) @ map fst kvs
          \<and> list_all2 (repr_from (Suc ?self) ?h')
               (([] :: tree list) @ map (\<lambda>kv. wrapped False (snd kv)) kvs) (map snd d')"
  proof (rule update_loop_spec [where d = "[]" and ts = "[]" and at = "[]"])
    show "deref ?h1 ?self = Some (DotAccessDict [] [] [])" by (rule d0)
    show "distinct (map fst ([] :: (string \<times> val) list) @ map fst kvs)" using doc by simp
    show "list_all document (map snd kvs)" using doc by simp
    show "list_all2 (repr_from (Suc ?self) ?h1) [] (map snd ([] :: (string \<times> val) list))"
      by simp
  qed (use IHd IHl in blast)+
  then obtain d' where res: "length ?h1 \<le> length ?h'"
    "\<forall>x<length ?h1. x \<noteq> ?self \<longrightarrow> ?h' ! x = ?h1 ! x"
    "deref ?h' ?self = Some (DotAccessDict d' d' [])"
    "map fst d' = map fst kvs"
    "list_all2 (repr_from (Suc ?self) ?h') (map (\<lambda>kv. wrapped False (snd kv)) kvs) (map snd d')"
    by auto
  have t: "take (length h) ?h' = h"
  proof (rule take_eqI)
    show "length h \<le> length ?h'" using res(1) by simp
  next
    fix x assume "x < length h"
    then show "?h' ! x = h ! x" using res(2) by (simp add: nth_append)
  qed
  have ch: "list_all2 (repr_from ?self ?h') (map (\<lambda>kv. wrapped False (snd kv)) kvs) (map snd d')"
    using res(5) by (rule list_all2_mono) (auto intro: repr_from_weaken)
  have "repr_from ?self ?h' (wrapped False (VDict kvs)) (VRef ?self)"
    using res(3,4) ch by (simp add: comp_def method_names_def)
  then show ?thesis
    using i t res(1) by (simp add: init_ok_def del: repr_from.simps wrapped.simps)
qed

lemma constructor_ok:
  "document v \<Longrightarrow>
   (case v of VDict kvs \<Rightarrow> \<forall>h. init_ok h v | VList xs \<Rightarrow> \<forall>h. wrap_ok h xs | _ \<Rightarrow> True)"
proof (induction v)
  case (VList xs)
  have "wrap_ok h xs" for h
  proof (rule wrap_list_spec)
    fix kvs g assume m: "VDict kvs \<in> set xs"
    from VList.prems have "\<forall>x\<in>set xs. document x" by (simp add: list_all_iff)
    with m have "document (VDict kvs)" by blast
    from VList.IH [OF m this] show "init_ok g (VDict kvs)" by simp
  qed
  then show ?case by simp
next
  case (VDict kvs)
  have "init_ok h (VDict kvs)" for h
  proof (rule init_spec)
    fix k kvs' g assume m: "(k, VDict kvs') \<in> set kvs"
    from VDict.prems have "\<forall>v\<in>set (map snd kvs). document v" by (simp add: list_all_iff)
    with m have "document (VDict kvs')" by force
    from VDict.IH [OF m _ this] show "init_ok g (VDict kvs')" by (simp add: snds.simps)
  next
    fix k xs g assume m: "(k, VList xs) \<in> set kvs"
    from VDict.prems have "\<forall>v\<in>set (map snd kvs). document v" by (simp add: list_all_iff)
    with m have "document (VList xs)" by force
    from VDict.IH [OF m _ this] show "wrap_ok g xs" by (simp add: snds.simps)
  next
    show "document (VDict kvs)" by (rule VDict.prems)
  qed
  then show ?case by simp
qed simp_all



text \<open>
  C2, as stated for both variants, fails on the Box variant: \<open>create_ordered_box\<close> sorts the
  items of the source by key before it builds the Box, so the mapping \<open>{b: 1, a: 2}\<close> is
  stored with the keys in the order \<open>a\<close>, \<open>b\<close>.
\<close>

theorem C2_box_constructor_reorders_keys:
  "create_ordered_box [] (VDict [(''b'', VInt 1), (''a'', VInt 2)])
     = Inr [(''a'', VInt 2), (''b'', VInt 1)]"
  by (simp add: create_ordered_box_def call_items_def py_sorted_def)

lemma sorted_py_sorted: "sorted (map f (py_sorted f False xs))"
  by (simp add: py_sorted_def)

text \<open>
  C2, amended. \<open>DotAccessDict\<close> built from a source mapping stores the keys in the order of
  the source at every nesting level: the new object has the keys of the source in their
  order, and it represents the wrapped source, whose nodes keep the order of the mappings
  they come from; the store that was there before is untouched. This is for sources none
  of whose mappings that become accessors has the key \<open>__class__\<close> or \<open>__dict__\<close>: on
  these the assignment to the namespace raises and no accessor is built.
  \<open>create_ordered_box\<close> stores the top-level keys in sorted order.
\<close>

theorem C2_constructor_keeps_source_order:
  assumes "document (VDict kvs)" and "settable (wrapped False (VDict kvs))"
  shows "(case DotAccessDict_init h (VDict kvs) of
            (h', r) \<Rightarrow> r = length h \<and> take (length h) h' = h
                     \<and> dad_keys h' r = Inr (map fst kvs)
                     \<and> repr_from (length h) h' (wrapped False (VDict kvs)) (VRef r))
     \<and> create_ordered_box h (VDict kvs) = Inr (py_sorted fst False kvs)
     \<and> sorted (map fst (py_sorted fst False kvs))"
proof -
  obtain h' r where i: "DotAccessDict_init h (VDict kvs) = (h', r)" by force
  from constructor_ok [OF assms(1)] have "init_ok h (VDict kvs)" by simp
  with i have ok: "r = length h" "take (length h) h' = h"
    "repr_from (length h) h' (wrapped False (VDict kvs)) (VRef r)"
    by (auto simp: init_ok_def simp del: repr_from.simps)
  from ok(3) obtain d at where d: "deref h' r = Some (DotAccessDict d d at)"
    "list_all (\<lambda>m. map_of at m = None) method_names" "map fst d = map fst kvs"
    by (auto simp: comp_def split: option.splits obj.splits)
  then have "dad_keys h' r = Inr (map fst kvs)"
    by (simp add: dad_keys_def method_names_def)
  then show ?thesis
    using i ok sorted_py_sorted [of fst kvs]
    by (simp add: create_ordered_box_def call_items_def del: repr_from.simps wrapped.simps)
qed

theorem C2_constructor_keeps_source_order_witness:
  "document (VDict [(''c'', VDict [(''z'', VNone), (''e'', VList [VDict [(''y'', VInt 1), (''x'', VInt 2)]])]), (''Test1'', VInt 42)])
   \<and> settable (wrapped False (VDict [(''c'', VDict [(''z'', VNone), (''e'', VList [VDict [(''y'', VInt 1), (''x'', VInt 2)]])]), (''Test1'', VInt 42)]))
   \<and> DotAccessDict_init [] (VDict [(''c'', VDict [(''z'', VNone), (''e'', VList [VDict [(''y'', VInt 1), (''x'', VInt 2)]])]), (''Test1'', VInt 42)])
     = ([DotAccessDict [(''c'', VRef 1), (''Test1'', VInt 42)] [(''c'', VRef 1), (''Test1'', VInt 42)] [],
         DotAccessDict [(''z'', VNone), (''e'', VList [VRef 2])] [(''z'', VNone), (''e'', VList [VRef 2])] [],
         DotAccessDict [(''y'', VInt 1), (''x'', VInt 2)] [(''y'', VInt 1), (''x'', VInt 2)] []], 0)
   \<and> dad_keys [DotAccessDict [(''c'', VRef 1), (''Test1'', VInt 42)] [(''c'', VRef 1), (''Test1'', VInt 42)] [],
         DotAccessDict [(''z'', VNone), (''e'', VList [VRef 2])] [(''z'', VNone), (''e'', VList [VRef 2])] [],
         DotAccessDict [(''y'', VInt 1), (''x'', VInt 2)] [(''y'', VInt 1), (''x'', VInt 2)] []] 0
       = Inr [''c'', ''Test1'']
   \<and> create_ordered_box [] (VDict [(''c'', VDict [(''z'', VNone), (''e'', VList [VDict [(''y'', VInt 1), (''x'', VInt 2)]])]), (''Test1'', VInt 42)])
     = Inr [(''Test1'', VInt 42), (''c'', VDict [(''z'', VNone), (''e'', VList [VDict [(''y'', VInt 1), (''x'', VInt 2)]])])]"
  using C2_constructor_keeps_source_order [of "[(''c'', VDict [(''z'', VNone), (''e'', VList [VDict [(''y'', VInt 1), (''x'', VInt 2)]])]), (''Test1'', VInt 42)]" "[]"]
  by (simp add: DotAccessDict_init.simps alloc_def truthy_def store_entry_def deref_def
      py_sorted_def dad_keys_def reserved_names_def)

section \<open>Deep sort: what it leaves alone and what it builds\<close>

lemma sort_seq_accessor:
  "deref h r = Some (DotAccessDict d ns at) \<Longrightarrow>
   sort_seq rec h (VRef r # rest) =
     (case rec h r of
        Inl e \<Rightarrow> Inl e
      | Inr (h1, s) \<Rightarrow>
          (case sort_seq rec h1 rest of
             Inl e \<Rightarrow> Inl e
           | Inr (h2, ys) \<Rightarrow> Inr (h2, VRef s # ys)))"
  by simp

lemma sort_seq_other:
  "(\<And>r d ns at. x = VRef r \<Longrightarrow> deref h r \<noteq> Some (DotAccessDict d ns at)) \<Longrightarrow>
   sort_seq rec h (x # rest) =
     (case sort_seq rec h rest of
        Inl e \<Rightarrow> Inl e
      | Inr (h2, ys) \<Rightarrow> Inr (h2, x # ys))"
  by (cases x) (auto split: option.splits obj.splits)

lemma sort_loop_accessor:
  "deref h r = Some (DotAccessDict d ns at) \<Longrightarrow>
   sort_loop rec h result ((k, VRef r) # rest) =
     (case rec h r of
        Inl e \<Rightarrow> Inl e
      | Inr (h1, s) \<Rightarrow> sort_loop rec (store_entry h1 result k (VRef s)) result rest)"
  by simp

lemma sort_loop_other:
  "(\<And>r d ns at. v = VRef r \<Longrightarrow> deref h r \<noteq> Some (DotAccessDict d ns at)) \<Longrightarrow>
   (\<And>xs. v \<noteq> VList xs) \<Longrightarrow>
   sort_loop rec h result ((k, v) # rest) =
     sort_loop rec (store_entry h result k v) result rest"
  by (cases v) (auto split: option.splits obj.splits)

lemma take_take_le: "m \<le> n \<Longrightarrow> take m (take n xs) = take m xs"
  by (simp add: min_def)

lemma take_trans:
  "take (length h) h1 = h \<Longrightarrow> take (length h1) h2 = h1 \<Longrightarrow> take (length h) h2 = h"
  by (metis take_take_le length_take min.cobounded2 min.commute)

lemma sort_seq_frame:
  assumes rec: "\<And>g x g' s. rec g x = Inr (g', s) \<Longrightarrow>
                  s = length g \<and> length g < length g' \<and> take (length g) g' = g"
    and "sort_seq rec h xs = Inr (h', ys)"
  shows "take (length h) h' = h"
  using assms(2)
proof (induction xs arbitrary: h h' ys)
  case Nil
  then show ?case by simp
next
  case (Cons x xs)
  show ?case
  proof (cases "\<exists>r d ns at. x = VRef r \<and> deref h r = Some (DotAccessDict d ns at)")
    case True
    then obtain r d ns at where x: "x = VRef r" "deref h r = Some (DotAccessDict d ns at)"
      by blast
    from Cons.prems x obtain h1 s zs where a: "rec h r = Inr (h1, s)"
      and b: "sort_seq rec h1 xs = Inr (h', zs)"
      by (auto simp: sort_seq_accessor split: sum.splits)
    from rec [OF a] have "take (length h) h1 = h" by simp
    moreover from Cons.IH [OF b] have "take (length h1) h' = h1" .
    ultimately show ?thesis by (rule take_trans)
  next
    case False
    then have "sort_seq rec h (x # xs) =
     (case sort_seq rec h xs of Inl e \<Rightarrow> Inl e | Inr (h2, ys) \<Rightarrow> Inr (h2, x # ys))"
      by (intro sort_seq_other) blast
    with Cons.prems obtain zs where "sort_seq rec h xs = Inr (h', zs)"
      by (auto split: sum.splits)
    then show ?thesis by (rule Cons.IH)
  qed
qed

lemma sort_loop_frame:
  assumes rec: "\<And>g x g' s. rec g x = Inr (g', s) \<Longrightarrow>
                  s = length g \<and> length g < length g' \<and> take (length g) g' = g"
    and "sort_loop rec h result its = Inr h'"
  shows "length h \<le> length h' \<and> (\<forall>x<length h. x \<noteq> result \<longrightarrow> h' ! x = h ! x)"
  using assms(2)
proof (induction its arbitrary: h h')
  case Nil
  then show ?case by simp
next
  case (Cons kv its)
  obtain k v where kv: "kv = (k, v)" by (cases kv)
  have "\<exists>g w. take (length h) g = h \<and>
          sort_loop rec (store_entry g result k w) result its = Inr h'"
  proof (cases "\<exists>r d ns at. v = VRef r \<and> deref h r = Some (DotAccessDict d ns at)")
    case True
    then obtain r d ns at where x: "v = VRef r" "deref h r = Some (DotAccessDict d ns at)"
      by blast
    from Cons.prems x kv obtain h1 s where a: "rec h r = Inr (h1, s)"
      and b: "sort_loop rec (store_entry h1 result k (VRef s)) result its = Inr h'"
      by (auto simp: sort_loop_accessor split: sum.splits)
    from rec [OF a] b show ?thesis by blast
  next
    case notacc: False
    show ?thesis
    proof (cases "\<exists>xs. v = VList xs")
      case True
      then obtain xs where v: "v = VList xs" by blast
      from Cons.prems v kv obtain h1 ys where a: "sort_seq rec h xs = Inr (h1, ys)"
        and b: "sort_loop rec (store_entry h1 result k (VList ys)) result its = Inr h'"
        by (auto split: sum.splits)
      have "take (length h) h1 = h"
      proof (rule sort_seq_frame [OF _ a])
        fix g x g' s assume "rec g x = Inr (g', s)"
        then show "s = length g \<and> length g < length g' \<and> take (length g) g' = g"
          by (rule rec)
      qed
      with b show ?thesis by blast
    next
      case False
      with notacc have "sort_loop rec h result ((k, v) # its) =
          sort_loop rec (store_entry h result k v) result its"
        by (intro sort_loop_other) blast+
      with Cons.prems kv show ?thesis by (intro exI [of _ h] exI [of _ v]) simp
    qed
  qed
  then obtain g w where g: "take (length h) g = h"
    and l: "sort_loop rec (store_entry g result k w) result its = Inr h'" by blast
  from Cons.IH [OF l] have f: "length g \<le> length h'"
    "\<forall>x<length g. x \<noteq> result \<longrightarrow> h' ! x = store_entry g result k w ! x" by simp_all
  have lg: "length h \<le> length g" using g by (rule take_eq_length)
  show ?case
  proof (intro conjI allI impI)
    show "length h \<le> length h'" using lg f(1) by simp
  next
    fix x assume x: "x < length h" "x \<noteq> result"
    then have "h' ! x = store_entry g result k w ! x" using f(2) lg by simp
    also have "\<dots> = g ! x" using x by (simp add: store_entry_nth_other)
    also have "\<dots> = h ! x" using g x by (simp add: take_eq_nth)
    finally show "h' ! x = h ! x" .
  qed
qed

lemma dad_sort_frame:
  "dad_sort key reverse n h r = Inr (h', s) \<Longrightarrow>
   s = length h \<and> length h < length h' \<and> take (length h) h' = h"
proof (induction n arbitrary: h r h' s)
  case 0
  then show ?case by simp
next
  case (Suc n)
  from Suc.prems obtain d ns at where d: "deref h r = Some (DotAccessDict d ns at)"
    by (auto split: option.splits obj.splits)
  let ?h1 = "h @ [DotAccessDict [] [] []]"
  from Suc.prems d have l: "sort_loop (dad_sort key reverse n) ?h1 (length h)
      (sorted_items key reverse d) = Inr h'" and s: "s = length h"
    by (auto simp: alloc_def split: if_splits sum.splits)
  have "length ?h1 \<le> length h' \<and> (\<forall>x<length ?h1. x \<noteq> length h \<longrightarrow> h' ! x = ?h1 ! x)"
    using _ l by (rule sort_loop_frame) (rule Suc.IH)
  then have a: "length h < length h'" and b: "\<forall>x<length h. h' ! x = h ! x"
    by (auto simp: nth_append)
  have "take (length h) h' = h"
    by (rule nth_equalityI) (use a b in auto)
  with s a show ?case by simp
qed

lemma insort_key_rel:
  assumes "list_all2 R xs ys" and "R x y" and key: "\<And>a b. R a b \<Longrightarrow> f a = g b"
  shows "list_all2 R (insort_key f x xs) (insort_key g y ys)"
  using assms(1,2)
proof (induction xs ys rule: list_all2_induct)
  case Nil
  then show ?case by simp
next
  case (Cons a xs b ys)
  then show ?case using key [of a b] key [of x y] by auto
qed

lemma sort_key_rel:
  assumes "list_all2 R xs ys" and key: "\<And>a b. R a b \<Longrightarrow> f a = g b"
  shows "list_all2 R (sort_key f xs) (sort_key g ys)"
  using assms(1)
proof (induction xs ys rule: list_all2_induct)
  case Nil
  then show ?case by simp
next
  case (Cons a xs b ys)
  then show ?case by (simp add: insort_key_rel [OF _ _ key])
qed

lemma py_sorted_rel:
  assumes "list_all2 R xs ys" and key: "\<And>a b. R a b \<Longrightarrow> f a = g b"
  shows "list_all2 R (py_sorted f reverse xs) (py_sorted g reverse ys)"
proof -
  have "list_all2 R (rev xs) (rev ys)" using assms(1) by simp
  then have "list_all2 R (sort_key f (rev xs)) (sort_key g (rev ys))"
    using key by (rule sort_key_rel)
  then show ?thesis
    using sort_key_rel [OF assms(1) key] by (simp add: py_sorted_def)
qed

lemma set_py_sorted [simp]: "set (py_sorted f reverse xs) = set xs"
  by (simp add: py_sorted_def)

lemma distinct_py_sorted [simp]: "distinct (py_sorted f reverse xs) = distinct xs"
  by (simp add: py_sorted_def)

lemma distinct_map_py_sorted:
  "distinct (map f xs) \<Longrightarrow> distinct (map f (py_sorted g reverse xs))"
  by (simp add: distinct_map)

lemma fold_max_le: "(fold max xs a \<le> (n::nat)) = (a \<le> n \<and> (\<forall>x\<in>set xs. x \<le> n))"
  by (induction xs arbitrary: a) auto

lemma depth_Node_Suc:
  "depth (Node kts) \<le> Suc n \<Longrightarrow> t \<in> set (map snd kts) \<Longrightarrow> depth t \<le> n"
  by (auto simp: fold_max_le)

lemma depth_Seq_le:
  "depth (Seq ts) \<le> n \<Longrightarrow> t \<in> set ts \<Longrightarrow> depth t \<le> n"
  by (cases n) (auto simp: fold_max_le)

lemma depth_Node_pos: "depth (Node kts) \<le> 0 \<Longrightarrow> False"
  by simp

lemma repr_Node_D:
  assumes "repr_from b h (Node kts) v"
  obtains r d at where "v = VRef r" "b \<le> r" "deref h r = Some (DotAccessDict d d at)"
    "list_all (\<lambda>m. map_of at m = None) method_names" "map fst d = map fst kts"
    "list_all2 (repr_from b h) (map snd kts) (map snd d)"
  using assms by (auto split: val.splits option.splits obj.splits)

lemma repr_Seq_D:
  assumes "repr_from b h (Seq ts) v"
  obtains vs where "v = VList vs" "list_all2 (repr_from b h) ts vs"
  using assms by (auto split: val.splits)

lemma document_not_ref: "document p \<Longrightarrow> p \<noteq> VRef r"
  by auto

lemma sort_seq_spec:
  assumes rec: "\<And>g x kts. repr_from 0 g (Node kts) (VRef x) \<Longrightarrow> wf_tree False (Node kts) \<Longrightarrow>
      depth (Node kts) \<le> n \<Longrightarrow>
      \<exists>g'. rec g x = Inr (g', length g) \<and> take (length g) g' = g \<and>
           repr_from (length g) g' (spec_sort reverse (Node kts)) (VRef (length g))"
    and "list_all2 (repr_from 0 h) ts vs"
    and "list_all (wf_tree True) ts"
    and "\<forall>t\<in>set ts. depth t \<le> n"
  shows "\<exists>h' ys. sort_seq rec h vs = Inr (h', ys) \<and> take (length h) h' = h \<and>
           list_all2 (repr_from (length h) h') (map (spec_sort reverse) ts) ys"
  using assms(2-)
proof (induction ts arbitrary: vs h)
  case Nil
  then show ?case by simp
next
  case (Cons t ts)
  from Cons.prems(1) obtain v vs' where vs: "vs = v # vs'" and rv: "repr_from 0 h t v"
    and rest: "list_all2 (repr_from 0 h) ts vs'"
    by (auto simp: list_all2_Cons1)
  from Cons.prems(2) have wt: "wf_tree True t" and wts: "list_all (wf_tree True) ts" by simp_all
  from Cons.prems(3) have dt: "depth t \<le> n" and dts: "\<forall>t\<in>set ts. depth t \<le> n" by simp_all
  show ?case
  proof (cases t)
    case (Leaf p)
    with rv wt have v: "v = p" "document p" by simp_all
    then have "sort_seq rec h (v # vs') =
        (case sort_seq rec h vs' of Inl e \<Rightarrow> Inl e | Inr (h2, ys) \<Rightarrow> Inr (h2, v # ys))"
      by (intro sort_seq_other) auto
    moreover from Cons.IH [OF rest wts dts]
    obtain h' ys where "sort_seq rec h vs' = Inr (h', ys)" "take (length h) h' = h"
      "list_all2 (repr_from (length h) h') (map (spec_sort reverse) ts) ys" by blast
    ultimately show ?thesis using vs Leaf v by simp
  next
    case (Seq us)
    with wt show ?thesis by simp
  next
    case (Node kts)
    from rv Node obtain r d at where v: "v = VRef r"
      and dr: "deref h r = Some (DotAccessDict d d at)"
      by (auto elim: repr_Node_D simp del: repr_from.simps)
    from rec [of h kts r] rv wt dt Node v
    obtain h1 where r1: "rec h r = Inr (h1, length h)" and t1: "take (length h) h1 = h"
      and p1: "repr_from (length h) h1 (spec_sort reverse t) (VRef (length h))"
      by auto
    have rest1: "list_all2 (repr_from 0 h1) ts vs'"
      using rest by (rule list_all2_mono) (rule repr_from_extend [OF _ t1])
    from Cons.IH [OF rest1 wts dts]
    obtain h' ys where s2: "sort_seq rec h1 vs' = Inr (h', ys)"
      and t2: "take (length h1) h' = h1"
      and p2: "list_all2 (repr_from (length h1) h') (map (spec_sort reverse) ts) ys"
      by blast
    have l: "length h \<le> length h1" using t1 by (rule take_eq_length)
    have "list_all2 (repr_from (length h) h') (map (spec_sort reverse) ts) ys"
      using p2 by (rule list_all2_mono) (use l in \<open>auto intro: repr_from_weaken\<close>)
    moreover have "repr_from (length h) h' (spec_sort reverse t) (VRef (length h))"
      using p1 t2 by (rule repr_from_extend)
    moreover have "take (length h) h' = h" using t1 t2 by (rule take_trans)
    moreover have "sort_seq rec h (v # vs') = Inr (h', VRef (length h) # ys)"
      using v dr r1 s2 by (simp add: sort_seq_accessor)
    ultimately show ?thesis using vs by (simp del: repr_from.simps)
  qed
qed

lemma sort_loop_step:
  assumes rec: "\<And>g x kts. repr_from 0 g (Node kts) (VRef x) \<Longrightarrow> wf_tree False (Node kts) \<Longrightarrow>
      depth (Node kts) \<le> n \<Longrightarrow>
      \<exists>g'. rec g x = Inr (g', length g) \<and> take (length g) g' = g \<and>
           repr_from (length g) g' (spec_sort reverse (Node kts)) (VRef (length g))"
    and rv: "repr_from 0 h t v" and wt: "wf_tree False t" and dt: "depth t \<le> n"
    and res: "result < length h"
  shows "\<exists>g' w. sort_loop rec h result ((k, v) # rest)
                   = sort_loop rec (store_entry g' result k w) result rest
               \<and> take (length h) g' = h
               \<and> repr_from (Suc result) g' (spec_sort reverse t) w"
proof (cases t)
  case (Leaf p)
  with rv wt have v: "v = p" "document p" "\<And>xs. p \<noteq> VList xs" by (auto split: val.splits)
  then have "sort_loop rec h result ((k, v) # rest) =
      sort_loop rec (store_entry h result k v) result rest"
    by (intro sort_loop_other) auto
  then show ?thesis using Leaf v by (intro exI [of _ h] exI [of _ v]) simp
next
  case (Seq ts)
  from rv Seq obtain vs where v: "v = VList vs" and r: "list_all2 (repr_from 0 h) ts vs"
    by (auto elim: repr_Seq_D simp del: repr_from.simps)
  have "\<exists>h' ys. sort_seq rec h vs = Inr (h', ys) \<and> take (length h) h' = h \<and>
           list_all2 (repr_from (length h) h') (map (spec_sort reverse) ts) ys"
    using rec r
  proof (rule sort_seq_spec)
    show "list_all (wf_tree True) ts" using wt Seq by simp
    show "\<forall>t\<in>set ts. depth t \<le> n" using dt Seq by (auto intro: depth_Seq_le)
  qed
  then obtain h' ys where s: "sort_seq rec h vs = Inr (h', ys)" and t: "take (length h) h' = h"
    and p: "list_all2 (repr_from (length h) h') (map (spec_sort reverse) ts) ys" by blast
  have "list_all2 (repr_from (Suc result) h') (map (spec_sort reverse) ts) ys"
    using p by (rule list_all2_mono) (use res in \<open>auto intro: repr_from_weaken\<close>)
  then have "repr_from (Suc result) h' (spec_sort reverse t) (VList ys)" using Seq by simp
  moreover have "sort_loop rec h result ((k, v) # rest)
      = sort_loop rec (store_entry h' result k (VList ys)) result rest"
    using v s by simp
  ultimately show ?thesis using t by blast
next
  case (Node kts)
  from rv Node obtain r d at where v: "v = VRef r"
    and dr: "deref h r = Some (DotAccessDict d d at)"
    by (auto elim: repr_Node_D simp del: repr_from.simps)
  from rec [of h kts r] rv wt dt Node v
  obtain h1 where r1: "rec h r = Inr (h1, length h)" and t1: "take (length h) h1 = h"
    and p1: "repr_from (length h) h1 (spec_sort reverse t) (VRef (length h))"
    by auto
  have "repr_from (Suc result) h1 (spec_sort reverse t) (VRef (length h))"
    using p1 by (rule repr_from_weaken) (use res in simp)
  moreover have "sort_loop rec h result ((k, v) # rest)
      = sort_loop rec (store_entry h1 result k (VRef (length h))) result rest"
    using v dr r1 by (simp add: sort_loop_accessor)
  ultimately show ?thesis using t1 by blast
qed

lemma sort_loop_spec:
  assumes rec: "\<And>g x kts. repr_from 0 g (Node kts) (VRef x) \<Longrightarrow> wf_tree False (Node kts) \<Longrightarrow>
      depth (Node kts) \<le> n \<Longrightarrow>
      \<exists>g'. rec g x = Inr (g', length g) \<and> take (length g) g' = g \<and>
           repr_from (length g) g' (spec_sort reverse (Node kts)) (VRef (length g))"
    and its: "list_all2 (\<lambda>kv kt. fst kv = fst kt \<and> repr_from 0 h0 (snd kt) (snd kv)) its kts"
    and ext: "take (length h0) h = h0"
    and new: "length h0 \<le> result"
    and self: "deref h result = Some (DotAccessDict d d at)"
    and dist: "distinct (map fst d @ map fst its)"
    and wf: "list_all (wf_tree False) (map snd kts)"
    and dp: "\<forall>t\<in>set (map snd kts). depth t \<le> n"
    and ch: "list_all2 (repr_from (Suc result) h) ts (map snd d)"
  shows "\<exists>h' d'. sort_loop rec h result its = Inr h'
          \<and> length h \<le> length h'
          \<and> (\<forall>x<length h. x \<noteq> result \<longrightarrow> h' ! x = h ! x)
          \<and> deref h' result = Some (DotAccessDict d' d' at)
          \<and> map fst d' = map fst d @ map fst its
          \<and> list_all2 (repr_from (Suc result) h')
               (ts @ map (\<lambda>kt. spec_sort reverse (snd kt)) kts) (map snd d')"
  using assms(2-)
proof (induction its arbitrary: kts h d ts)
  case Nil
  then show ?case by (auto simp del: repr_from.simps)
next
  case (Cons kv rest)
  obtain k v where kv: "kv = (k, v)" by (cases kv)
  from Cons.prems(1) kv obtain t kts' where kts: "kts = (k, t) # kts'"
    and rv0: "repr_from 0 h0 t v"
    and rest: "list_all2 (\<lambda>kv kt. fst kv = fst kt \<and> repr_from 0 h0 (snd kt) (snd kv)) rest kts'"
    by (auto simp: list_all2_Cons1 simp del: repr_from.simps)
  from Cons.prems(4) have sl: "result < length h" by (auto dest: deref_SomeD)
  have rv: "repr_from 0 h t v" using rv0 Cons.prems(2) by (rule repr_from_extend)
  have wt: "wf_tree False t" and dt: "depth t \<le> n"
    using Cons.prems(6,7) kts by simp_all
  from sort_loop_step [of n rec reverse h t v result k rest, OF rec rv wt dt sl]
  obtain g' w where step: "sort_loop rec h result ((k, v) # rest)
                   = sort_loop rec (store_entry g' result k w) result rest"
    and pre: "take (length h) g' = h"
    and rw: "repr_from (Suc result) g' (spec_sort reverse t) w"
    by blast
  let ?h1 = "store_entry g' result k w"
  have lg: "length h \<le> length g'" using pre by (rule take_eq_length)
  have dg: "deref g' result = Some (DotAccessDict d d at)"
    using Cons.prems(4) pre sl lg by (auto simp: deref_def take_eq_nth)
  have chg: "list_all2 (repr_from (Suc result) g') ts (map snd d)"
    using Cons.prems(8) by (rule list_all2_mono) (rule repr_from_extend [OF _ pre])
  have fresh: "k \<notin> set (map fst d)" using Cons.prems(5) kv by auto
  from store_entry_step [OF dg chg rw fresh]
  have d1: "deref ?h1 result = Some (DotAccessDict (d @ [(k, w)]) (d @ [(k, w)]) at)"
    and ch1: "list_all2 (repr_from (Suc result) ?h1) (ts @ [spec_sort reverse t])
                (map snd (d @ [(k, w)]))"
    by blast+
  have ext0: "take (length h0) g' = h0" using Cons.prems(2) pre by (rule take_trans)
  have ext1: "take (length h0) ?h1 = h0"
  proof (rule take_eqI)
    show "length h0 \<le> length ?h1" using ext0 by (simp add: take_eq_length)
  next
    fix x assume "x < length h0"
    then show "?h1 ! x = h0 ! x"
      using Cons.prems(3) ext0 by (simp add: store_entry_nth_other take_eq_nth)
  qed
  have dist1: "distinct (map fst (d @ [(k, w)]) @ map fst rest)"
    using Cons.prems(5) kv by auto
  have wf1: "list_all (wf_tree False) (map snd kts')" using Cons.prems(6) kts by simp
  have dp1: "\<forall>t\<in>set (map snd kts'). depth t \<le> n" using Cons.prems(7) kts by simp
  from Cons.IH [OF rest ext1 Cons.prems(3) d1 dist1 wf1 dp1 ch1]
  obtain h' d' where res: "sort_loop rec ?h1 result rest = Inr h'"
    "length ?h1 \<le> length h'"
    "\<forall>x<length ?h1. x \<noteq> result \<longrightarrow> h' ! x = ?h1 ! x"
    "deref h' result = Some (DotAccessDict d' d' at)"
    "map fst d' = map fst (d @ [(k, w)]) @ map fst rest"
    "list_all2 (repr_from (Suc result) h')
       ((ts @ [spec_sort reverse t]) @ map (\<lambda>kt. spec_sort reverse (snd kt)) kts') (map snd d')"
    by blast
  have fr: "\<forall>x<length h. x \<noteq> result \<longrightarrow> h' ! x = h ! x"
  proof (intro allI impI)
    fix x assume x: "x < length h" "x \<noteq> result"
    then have "h' ! x = ?h1 ! x" using res(3) lg by simp
    also have "\<dots> = g' ! x" using x by (simp add: store_entry_nth_other)
    also have "\<dots> = h ! x" using pre x by (simp add: take_eq_nth)
    finally show "h' ! x = h ! x" .
  qed
  show ?case
    unfolding kv kts step
    using res(1,2,4,5,6) fr lg
    by (intro exI [of _ h'] exI [of _ d']) (simp del: repr_from.simps)
qed

lemma repr_items_rel:
  assumes "map fst d = map fst kts" and "list_all2 (repr_from b h) (map snd kts) (map snd d)"
  shows "list_all2 (\<lambda>kv kt. fst kv = fst kt \<and> repr_from b h (snd kt) (snd kv)) d kts"
proof -
  have l: "length d = length kts" using assms(1) by (metis length_map)
  show ?thesis
  proof (rule list_all2_all_nthI [OF l])
    fix i assume i: "i < length d"
    have "fst (d ! i) = fst (kts ! i)" using assms(1) i l by (metis nth_map)
    moreover have "repr_from b h (snd (kts ! i)) (snd (d ! i))"
      using list_all2_nthD [OF assms(2), of i] i l by simp
    ultimately show "fst (d ! i) = fst (kts ! i) \<and> repr_from b h (snd (kts ! i)) (snd (d ! i))"
      by simp
  qed
qed

lemma py_sorted_map_snd:
  "py_sorted fst reverse (map (\<lambda>kt. (fst kt, F (snd kt))) kts)
     = map (\<lambda>kt. (fst kt, F (snd kt))) (py_sorted fst reverse kts)"
proof -
  let ?g = "\<lambda>kt. (fst kt, F (snd kt))"
  have "list_all2 (\<lambda>a b. a = ?g b) (map ?g kts) kts"
    by (simp add: list_all2_map1 list_all2_refl)
  then have "list_all2 (\<lambda>a b. a = ?g b) (py_sorted fst reverse (map ?g kts))
      (py_sorted fst reverse kts)"
    by (rule py_sorted_rel) simp
  then show ?thesis
    by (simp add: list_all2_conv_all_nth nth_equalityI)
qed

lemma list_all2_fst_eq:
  "list_all2 (\<lambda>a b. fst a = fst b \<and> P a b) xs ys \<Longrightarrow> map fst xs = map fst ys"
  by (induction xs ys rule: list_all2_induct) auto

lemma dad_sort_refines:
  "repr_from 0 h (Node kts) (VRef r) \<Longrightarrow> wf_tree False (Node kts) \<Longrightarrow>
   depth (Node kts) \<le> n \<Longrightarrow>
   \<exists>h'. dad_sort (None :: (string \<times> val \<Rightarrow> 'o::linorder) option) reverse n h r = Inr (h', length h) \<and> take (length h) h' = h \<and>
        repr_from (length h) h' (spec_sort reverse (Node kts)) (VRef (length h))"
proof (induction n arbitrary: h r kts)
  case 0
  then show ?case by simp
next
  case (Suc n)
  from Suc.prems(1) obtain d at where dr: "deref h r = Some (DotAccessDict d d at)"
    and sh: "list_all (\<lambda>m. map_of at m = None) method_names"
    and ks: "map fst d = map fst kts"
    and ch: "list_all2 (repr_from 0 h) (map snd kts) (map snd d)"
    by (auto elim: repr_Node_D simp del: repr_from.simps)
  let ?h1 = "h @ [DotAccessDict [] [] []]"
  let ?res = "length h"
  let ?its = "py_sorted fst reverse d"
  let ?kts = "py_sorted fst reverse kts"
  have nosort: "map_of at ''sort'' = None" using sh by (simp add: method_names_def)
  have ds: "dad_sort (None :: (string \<times> val \<Rightarrow> 'o::linorder) option) reverse (Suc n) h r =
      (case sort_loop (dad_sort (None :: (string \<times> val \<Rightarrow> 'o::linorder) option) reverse n) ?h1 ?res ?its of
         Inl e \<Rightarrow> Inl e | Inr h2 \<Rightarrow> Inr (h2, ?res))"
    using dr nosort by (simp add: alloc_def sorted_items_def)
  have rel: "list_all2 (\<lambda>kv kt. fst kv = fst kt \<and> repr_from 0 h (snd kt) (snd kv)) ?its ?kts"
    using repr_items_rel [OF ks ch] by (rule py_sorted_rel) simp
  from Suc.prems(2) have dk: "distinct (map fst kts)"
    and wk: "list_all (wf_tree False) (map snd kts)" by simp_all
  have "\<exists>h' d'. sort_loop (dad_sort (None :: (string \<times> val \<Rightarrow> 'o::linorder) option) reverse n) ?h1 ?res ?its = Inr h'
          \<and> length ?h1 \<le> length h'
          \<and> (\<forall>x<length ?h1. x \<noteq> ?res \<longrightarrow> h' ! x = ?h1 ! x)
          \<and> deref h' ?res = Some (DotAccessDict d' d' [])
          \<and> map fst d' = map fst ([] :: (string \<times> val) list) @ map fst ?its
          \<and> list_all2 (repr_from (Suc ?res) h')
               (([] :: tree list) @ map (\<lambda>kt. spec_sort reverse (snd kt)) ?kts) (map snd d')"
  proof (rule sort_loop_spec [where n = n and ?h0.0 = h])
    fix g x kts'
    assume "repr_from 0 g (Node kts') (VRef x)" "wf_tree False (Node kts')"
      "depth (Node kts') \<le> n"
    then show "\<exists>g'. dad_sort (None :: (string \<times> val \<Rightarrow> 'o::linorder) option) reverse n g x = Inr (g', length g) \<and> take (length g) g' = g \<and>
           repr_from (length g) g' (spec_sort reverse (Node kts')) (VRef (length g))"
      by (rule Suc.IH)
  next
    show "list_all2 (\<lambda>kv kt. fst kv = fst kt \<and> repr_from 0 h (snd kt) (snd kv)) ?its ?kts"
      by (rule rel)
    show "take (length h) ?h1 = h" by simp
    show "length h \<le> ?res" by simp
    show "deref ?h1 ?res = Some (DotAccessDict [] [] [])" by (simp add: deref_def)
    show "distinct (map fst ([] :: (string \<times> val) list) @ map fst ?its)"
      using dk ks by (simp add: distinct_map_py_sorted)
    show "list_all (wf_tree False) (map snd ?kts)"
      using wk by (simp add: list_all_iff)
    show "\<forall>t\<in>set (map snd ?kts). depth t \<le> n"
      using Suc.prems(3) depth_Node_Suc [of kts n] by simp
    show "list_all2 (repr_from (Suc ?res) ?h1) [] (map snd ([] :: (string \<times> val) list))"
      by simp
  qed
  then obtain h' d' where res: "sort_loop (dad_sort (None :: (string \<times> val \<Rightarrow> 'o::linorder) option) reverse n) ?h1 ?res ?its = Inr h'"
    "length ?h1 \<le> length h'"
    "\<forall>x<length ?h1. x \<noteq> ?res \<longrightarrow> h' ! x = ?h1 ! x"
    "deref h' ?res = Some (DotAccessDict d' d' [])"
    "map fst d' = map fst ?its"
    "list_all2 (repr_from (Suc ?res) h') (map (\<lambda>kt. spec_sort reverse (snd kt)) ?kts)
       (map snd d')"
    by auto
  have t: "take (length h) h' = h"
  proof (rule take_eqI)
    show "length h \<le> length h'" using res(2) by simp
  next
    fix x assume "x < length h"
    then show "h' ! x = h ! x" using res(3) by (simp add: nth_append)
  qed
  have keys: "map fst ?its = map fst ?kts"
    using rel by (rule list_all2_fst_eq)
  have ch': "list_all2 (repr_from ?res h') (map (\<lambda>kt. spec_sort reverse (snd kt)) ?kts)
       (map snd d')"
    using res(6) by (rule list_all2_mono) (auto intro: repr_from_weaken)
  have "repr_from ?res h' (spec_sort reverse (Node kts)) (VRef ?res)"
    using res(4,5) keys ch' by (simp add: py_sorted_map_snd comp_def method_names_def)
  then show ?case using ds res(1) t by (simp del: repr_from.simps spec_sort.simps dad_sort.simps)
qed

lemma accessor_tree_is_Node:
  assumes "repr_from b h t (VRef r)" and "wf_tree f t"
  obtains kts where "t = Node kts"
  using assms by (cases t) (auto split: val.splits)

text \<open>
  C6. For an accessor \<open>x\<close> built from a document (it represents a well-formed tree) and a
  recursion budget that covers its depth, \<open>x.sort()\<close> returns: its result is an address
  that was free before the call, so a new instance; every object of the store from before
  the call is unchanged after it, so \<open>x\<close> and the accessors nested in it keep their keys,
  values and key order, and \<open>x\<close> represents the same tree as before. With any key function,
  any \<open>reverse\<close> and any budget, a call of \<open>sort\<close> that returns has returned a new
  address and left the old objects unchanged.
\<close>

theorem C6_sort_leaves_the_source_alone:
  assumes "repr_from 0 h t (VRef r)" and "wf_tree False t" and "depth t \<le> n"
  shows "(\<exists>h'. dad_sort (None :: (string \<times> val \<Rightarrow> 'o::linorder) option) reverse n h r
              = Inr (h', length h)
            \<and> deref h (length h) = None
            \<and> length h < length h' \<and> take (length h) h' = h
            \<and> repr_from 0 h' t (VRef r))
     \<and> (\<forall>g'. \<forall>s. dad_sort key reverse' m h r = Inr (g', s) \<longrightarrow>
            s = length h \<and> length h < length g' \<and> take (length h) g' = h)"
proof -
  from assms(1,2) obtain kts where t: "t = Node kts" by (rule accessor_tree_is_Node)
  from dad_sort_refines [of h kts r n, where ?'o = 'o and reverse = reverse] assms t
  obtain h' where s: "dad_sort (None :: (string \<times> val \<Rightarrow> 'o) option) reverse n h r
        = Inr (h', length h)" and e: "take (length h) h' = h"
    by (auto simp del: repr_from.simps spec_sort.simps wf_tree.simps depth.simps)
  from dad_sort_frame [OF s] have l: "length h < length h'" by simp
  have "repr_from 0 h' t (VRef r)" using assms(1) e by (rule repr_from_extend)
  with s e l have 1: "\<exists>h'. dad_sort (None :: (string \<times> val \<Rightarrow> 'o::linorder) option) reverse n h r
              = Inr (h', length h)
            \<and> deref h (length h) = None
            \<and> length h < length h' \<and> take (length h) h' = h
            \<and> repr_from 0 h' t (VRef r)"
    by (auto simp: deref_def simp del: repr_from.simps)
  have 2: "\<forall>g'. \<forall>s. dad_sort key reverse' m h r = Inr (g', s) \<longrightarrow>
            s = length h \<and> length h < length g' \<and> take (length h) g' = h"
    using dad_sort_frame by blast
  from 1 2 show ?thesis by blast
qed

lemma sorted_map_py_sorted:
  "(if reverse then sorted (rev (map f (py_sorted f reverse xs)))
    else sorted (map f (py_sorted f reverse xs)))"
  by (simp add: py_sorted_def rev_map)

lemma sorted_tree_spec_sort: "sorted_tree reverse (spec_sort reverse t)"
proof (induction t)
  case (Leaf p)
  then show ?case by simp
next
  case (Seq ts)
  then show ?case by (simp add: list_all_iff)
next
  case (Node kts)
  have "list_all (sorted_tree reverse)
     (map snd (py_sorted fst reverse (map (\<lambda>kt. (fst kt, spec_sort reverse (snd kt))) kts)))"
    using Node.IH by (auto simp: list_all_iff snds.simps)
  moreover have "map fst (py_sorted fst reverse
        (map (\<lambda>kt. (fst kt, spec_sort reverse (snd kt))) kts))
      = map fst (py_sorted fst reverse kts)"
    by (simp add: py_sorted_map_snd comp_def)
  ultimately show ?case
    using sorted_map_py_sorted [of reverse fst kts] by (cases reverse) simp_all
qed

lemma sorted_val_sort_nested_dictionary: "sorted_val (sort_nested_dictionary v)"
proof (induction v)
  case (VList xs)
  then show ?case by (simp add: list_all_iff)
next
  case (VDict kvs)
  have "list_all sorted_val
     (map snd (py_sorted fst False (map (\<lambda>(k, v). (k, sort_nested_dictionary v)) kvs)))"
    using VDict.IH by (auto simp: list_all_iff snds.simps)
  then show ?case using sorted_py_sorted [of fst] by simp
qed simp_all

lemma map_insort_key: "map f (insort_key f x xs) = insort (f x) (map f xs)"
  by (induction xs) simp_all

lemma map_sort_key: "map f (sort_key f xs) = sort (map f xs)"
  by (induction xs) (simp_all add: map_insort_key)

lemma sort_nested_dictionary_entries:
  assumes "distinct (map fst kvs)"
  shows "\<exists>r. sort_nested_dictionary (VDict kvs) = VDict r
           \<and> map fst r = sort (map fst kvs)
           \<and> (\<forall>k w. (k, w) \<in> set kvs \<longrightarrow> map_of r k = Some (sort_nested_dictionary w))"
proof -
  let ?g = "\<lambda>(k, v). (k, sort_nested_dictionary v)"
  let ?r = "py_sorted fst False (map ?g kvs)"
  have fg: "map fst (map ?g kvs) = map fst kvs" by (induction kvs) auto
  have keys: "map fst ?r = sort (map fst kvs)"
    by (simp only: py_sorted_def if_False map_sort_key fg)
  have dist: "distinct (map fst ?r)" using assms keys by simp
  have vals: "map_of ?r k = Some (sort_nested_dictionary w)" if "(k, w) \<in> set kvs" for k w
  proof -
    from that have "(k, sort_nested_dictionary w) \<in> set (map ?g kvs)" by force
    then have "(k, sort_nested_dictionary w) \<in> set ?r" by simp
    with dist show ?thesis by (rule map_of_is_SomeI)
  qed
  have "sort_nested_dictionary (VDict kvs) = VDict ?r" by simp
  with keys vals show ?thesis by blast
qed

text \<open>
  C5. \<open>x.sort(reverse=reverse)\<close> without a comparator returns an accessor that represents
  \<open>spec_sort reverse\<close> of the tree of \<open>x\<close>: at every nesting level the entries are ordered
  by key (descending with \<open>reverse\<close>), a sequence keeps its element order, its accessor
  elements are sorted recursively and its other elements are kept. The result is sorted at
  every level. In the Box variant, \<open>sort_nested_dictionary\<close> returns dictionaries sorted at
  every level; the result for a dictionary has the keys of the dictionary in sorted order,
  and under each key the sorted value that the dictionary has under it; the result for a
  list has the sorted elements of the list in their order; any other value is returned as
  it is.
\<close>

theorem C5_sort_orders_every_level:
  "(repr_from 0 h t (VRef r) \<and> wf_tree False t \<and> depth t \<le> n \<longrightarrow>
      (\<exists>h'. dad_sort (None :: (string \<times> val \<Rightarrow> 'o::linorder) option) reverse n h r
              = Inr (h', length h)
            \<and> repr_from (length h) h' (spec_sort reverse t) (VRef (length h))))
   \<and> sorted_tree reverse (spec_sort reverse t)
   \<and> sorted_val (sort_nested_dictionary v)
   \<and> (distinct (map fst kvs) \<longrightarrow>
        (\<exists>res. sort_nested_dictionary (VDict kvs) = VDict res
           \<and> map fst res = sort (map fst kvs)
           \<and> (\<forall>k w. (k, w) \<in> set kvs \<longrightarrow> map_of res k = Some (sort_nested_dictionary w))))
   \<and> sort_nested_dictionary (VList xs) = VList (map sort_nested_dictionary xs)
   \<and> sort_nested_dictionary VNone = VNone
   \<and> sort_nested_dictionary (VBool b) = VBool b
   \<and> sort_nested_dictionary (VInt i) = VInt i
   \<and> sort_nested_dictionary (VStr s) = VStr s"
proof -
  have 1: "repr_from 0 h t (VRef r) \<and> wf_tree False t \<and> depth t \<le> n \<longrightarrow>
      (\<exists>h'. dad_sort (None :: (string \<times> val \<Rightarrow> 'o::linorder) option) reverse n h r
              = Inr (h', length h)
            \<and> repr_from (length h) h' (spec_sort reverse t) (VRef (length h)))"
  proof
    assume a: "repr_from 0 h t (VRef r) \<and> wf_tree False t \<and> depth t \<le> n"
    then obtain kts where t: "t = Node kts" by (auto elim: accessor_tree_is_Node)
    from dad_sort_refines [of h kts r n, where ?'o = 'o and reverse = reverse] a t
    show "\<exists>h'. dad_sort (None :: (string \<times> val \<Rightarrow> 'o::linorder) option) reverse n h r
              = Inr (h', length h)
            \<and> repr_from (length h) h' (spec_sort reverse t) (VRef (length h))"
      by (auto simp del: repr_from.simps spec_sort.simps wf_tree.simps depth.simps)
  qed
  have 2: "sorted_tree reverse (spec_sort reverse t)" by (rule sorted_tree_spec_sort)
  have 3: "sorted_val (sort_nested_dictionary v)" by (rule sorted_val_sort_nested_dictionary)
  have 4: "distinct (map fst kvs) \<longrightarrow>
        (\<exists>res. sort_nested_dictionary (VDict kvs) = VDict res
           \<and> map fst res = sort (map fst kvs)
           \<and> (\<forall>k w. (k, w) \<in> set kvs \<longrightarrow> map_of res k = Some (sort_nested_dictionary w)))"
    using sort_nested_dictionary_entries [of kvs] by blast
  have 5: "sort_nested_dictionary (VList xs) = VList (map sort_nested_dictionary xs)"
    "sort_nested_dictionary VNone = VNone" "sort_nested_dictionary (VBool b) = VBool b"
    "sort_nested_dictionary (VInt i) = VInt i" "sort_nested_dictionary (VStr s) = VStr s"
    by simp_all
  from 1 2 3 4 5 show ?thesis by (intro conjI)
qed

section \<open>The worked example\<close>

lemma example_init: "DotAccessDict_init [] example_source = (example_heap, 0)"
  by (simp add: example_source_def example_heap_def DotAccessDict_init.simps alloc_def
      truthy_def store_entry_def deref_def)

lemma example_sort:
  "dad_sort (None :: (string \<times> val \<Rightarrow> unit) option) False 4 example_heap 0
     = Inr (example_heap @ example_sorted, 3)"
  by (simp add: example_heap_def example_sorted_def eval_nat_numeral alloc_def
      sorted_items_def py_sorted_def store_entry_def deref_def)

lemma example_repr:
  "repr_from 0 example_heap (wrapped False example_source) (VRef 0)
   \<and> wf_tree False (wrapped False example_source)
   \<and> depth (wrapped False example_source) \<le> 4"
  by (simp add: example_heap_def example_source_def deref_def method_names_def)

section \<open>Sorting twice\<close>

lemma py_sorted_idem: "py_sorted f reverse (py_sorted f reverse xs) = py_sorted f reverse xs"
  by (simp add: py_sorted_def sort_key_id_if_sorted)

lemma wf_tree_spec_sort: "wf_tree f t \<Longrightarrow> wf_tree f (spec_sort reverse t)"
proof (induction t arbitrary: f)
  case (Leaf p)
  then show ?case by simp
next
  case (Seq ts)
  then show ?case by (auto simp: list_all_iff)
next
  case (Node kts)
  let ?G = "\<lambda>kt. (fst kt, spec_sort reverse (snd kt))"
  have 1: "distinct (map fst (py_sorted fst reverse (map ?G kts)))"
    using Node.prems by (simp add: py_sorted_map_snd comp_def distinct_map_py_sorted)
  have 2: "list_all (wf_tree False) (map snd (py_sorted fst reverse (map ?G kts)))"
    using Node.prems Node.IH by (auto simp: list_all_iff snds.simps)
  from 1 2 show ?case by simp
qed

lemma depth_spec_sort: "depth t \<le> n \<Longrightarrow> depth (spec_sort reverse t) \<le> n"
proof (induction t arbitrary: n)
  case (Leaf p)
  then show ?case by simp
next
  case (Seq ts)
  then show ?case by (cases n) (auto simp: fold_max_le)
next
  case (Node kts)
  then show ?case by (cases n) (auto simp: fold_max_le snds.simps)
qed

lemma spec_sort_idem: "spec_sort reverse (spec_sort reverse t) = spec_sort reverse t"
proof (induction t)
  case (Leaf p)
  then show ?case by simp
next
  case (Seq ts)
  then show ?case by simp
next
  case (Node kts)
  let ?G = "\<lambda>kt. (fst kt, spec_sort reverse (snd kt))"
  let ?S = "py_sorted fst reverse kts"
  have G: "\<And>kt. kt \<in> set ?S \<Longrightarrow> ?G (?G kt) = ?G kt"
    using Node.IH by (auto simp: snds.simps)
  have "spec_sort reverse (spec_sort reverse (Node kts))
      = Node (py_sorted fst reverse (map ?G (map ?G ?S)))"
    by (simp add: py_sorted_map_snd)
  also have "map ?G (map ?G ?S) = map ?G ?S"
    using G by (simp add: comp_def)
  also have "py_sorted fst reverse (map ?G ?S) = map ?G (py_sorted fst reverse ?S)"
    by (rule py_sorted_map_snd)
  also have "py_sorted fst reverse ?S = ?S" by (rule py_sorted_idem)
  finally show ?case by (simp add: py_sorted_map_snd)
qed

lemma rich_eq_TrueI: "eq a c = Inr True \<Longrightarrow> rich_eq eq a c = Inr True"
  by (auto simp: rich_eq_def split: val.splits)

lemma list_eq_TrueI:
  "list_all2 (\<lambda>a c. rich_eq eq a c = Inr True) xs ys \<Longrightarrow> list_eq eq xs ys = Inr True"
  by (induction xs ys rule: list_all2_induct) auto

lemma dict_eq_refl:
  "distinct (map fst ys) \<Longrightarrow> set xs \<subseteq> set ys \<Longrightarrow>
   \<forall>kv\<in>set xs. rich_eq eq (snd kv) (snd kv) = Inr True \<Longrightarrow>
   dict_eq eq xs ys = Inr True"
  by (induction xs) auto

lemma vdepth_pos: "0 < vdepth p"
  by (cases p) simp_all

lemma py_eq_document_refl:
  "document p \<Longrightarrow> vdepth p \<le> n \<Longrightarrow> py_eq n h p p = Inr True"
proof (induction n arbitrary: p)
  case 0
  then show ?case using vdepth_pos [of p] by simp
next
  case (Suc n)
  show ?case
  proof (cases p)
    case (VList xs)
    have "list_all2 (\<lambda>a c. rich_eq (py_eq n h) a c = Inr True) xs xs"
    proof (rule list.rel_refl_strong)
      fix x assume "x \<in> set xs"
      then have "document x" "vdepth x \<le> n"
        using Suc.prems VList by (auto simp: list_all_iff fold_max_le)
      then show "rich_eq (py_eq n h) x x = Inr True"
        by (intro rich_eq_TrueI Suc.IH)
    qed
    then show ?thesis using VList by (simp add: list_eq_TrueI)
  next
    case (VDict kvs)
    have "dict_eq (py_eq n h) kvs kvs = Inr True"
    proof (rule dict_eq_refl)
      show "distinct (map fst kvs)" using Suc.prems VDict by simp
      show "set kvs \<subseteq> set kvs" by simp
      show "\<forall>kv\<in>set kvs. rich_eq (py_eq n h) (snd kv) (snd kv) = Inr True"
      proof
        fix kv assume "kv \<in> set kvs"
        then have "snd kv \<in> set (map snd kvs)" by simp
        then have "document (snd kv)" "vdepth (snd kv) \<le> n"
          using Suc.prems VDict by (auto simp: list_all_iff fold_max_le)
        then show "rich_eq (py_eq n h) (snd kv) (snd kv) = Inr True"
          by (intro rich_eq_TrueI Suc.IH)
      qed
    qed
    then show ?thesis using VDict by simp
  next
    case (VRef r)
    with Suc.prems show ?thesis by simp
  qed (simp_all add: scalar_eq_def)
qed

lemma list_all2_join_aux:
  "list_all2 P ts xs \<Longrightarrow> list_all2 Q ts ys \<Longrightarrow>
   \<forall>t\<in>set ts. \<forall>a c. P t a \<longrightarrow> Q t c \<longrightarrow> R a c \<Longrightarrow> list_all2 R xs ys"
proof (induction ts arbitrary: xs ys)
  case Nil
  then show ?case by simp
next
  case (Cons t ts)
  from Cons.prems(1) obtain x xs' where xs: "xs = x # xs'" "P t x" "list_all2 P ts xs'"
    by (auto simp: list_all2_Cons1)
  from Cons.prems(2) obtain y ys' where ys: "ys = y # ys'" "Q t y" "list_all2 Q ts ys'"
    by (auto simp: list_all2_Cons1)
  have "R x y" using Cons.prems(3) xs(2) ys(2) by simp
  moreover have "list_all2 R xs' ys'"
    using xs(3) ys(3) Cons.prems(3) by (intro Cons.IH) simp_all
  ultimately show ?case using xs(1) ys(1) by simp
qed

lemma list_all2_join:
  assumes "list_all2 P ts xs" and "list_all2 Q ts ys"
    and "\<And>t a c. t \<in> set ts \<Longrightarrow> P t a \<Longrightarrow> Q t c \<Longrightarrow> R a c"
  shows "list_all2 R xs ys"
  using assms(1,2) by (rule list_all2_join_aux) (use assms(3) in blast)

lemma depth_pos: "0 < depth t"
  by (cases t) (simp_all add: vdepth_pos)

lemma eq_same_tree:
  "repr_from b1 h t a \<Longrightarrow> repr_from b2 h t c \<Longrightarrow> wf_tree f t \<Longrightarrow> depth t \<le> n \<Longrightarrow>
   py_eq n h a c = Inr True"
proof (induction n arbitrary: t a c f)
  case 0
  then show ?case using depth_pos [of t] by simp
next
  case (Suc n)
  show ?case
  proof (cases t)
    case (Leaf p)
    with Suc.prems show ?thesis by (simp add: py_eq_document_refl del: py_eq.simps)
  next
    case (Seq ts)
    from Suc.prems(1,2) Seq obtain xs ys where a: "a = VList xs" and c: "c = VList ys"
      and rx: "list_all2 (repr_from b1 h) ts xs" and ry: "list_all2 (repr_from b2 h) ts ys"
      by (auto elim!: repr_Seq_D simp del: repr_from.simps)
    have "list_all2 (\<lambda>a c. rich_eq (py_eq n h) a c = Inr True) xs ys"
      using rx ry
    proof (rule list_all2_join)
      fix u x y assume u: "u \<in> set ts" "repr_from b1 h u x" "repr_from b2 h u y"
      have "wf_tree True u" using Suc.prems(3) Seq u(1) by (auto simp: list_all_iff)
      moreover have "depth u \<le> n" using Suc.prems(4) Seq u(1) by (auto simp: fold_max_le)
      ultimately have "py_eq n h x y = Inr True" using u(2,3) by (intro Suc.IH)
      then show "rich_eq (py_eq n h) x y = Inr True" by (rule rich_eq_TrueI)
    qed
    moreover have "length xs = length ys"
      using rx ry by (metis list_all2_lengthD)
    ultimately show ?thesis using a c by (simp add: list_eq_TrueI)
  next
    case (Node kts)
    from Suc.prems(1) Node obtain x d at where a: "a = VRef x"
      and dx: "deref h x = Some (DotAccessDict d d at)"
      and sx: "list_all (\<lambda>m. map_of at m = None) method_names"
      and kx: "map fst d = map fst kts"
      and rx: "list_all2 (repr_from b1 h) (map snd kts) (map snd d)"
      by (auto elim!: repr_Node_D simp del: repr_from.simps)
    from Suc.prems(2) Node obtain y d' at' where c: "c = VRef y"
      and dy: "deref h y = Some (DotAccessDict d' d' at')"
      and sy: "list_all (\<lambda>m. map_of at' m = None) method_names"
      and ky: "map fst d' = map fst kts"
      and ry: "list_all2 (repr_from b2 h) (map snd kts) (map snd d')"
      by (auto elim!: repr_Node_D simp del: repr_from.simps)
    have vals: "list_all2 (\<lambda>a c. rich_eq (py_eq n h) a c = Inr True) (map snd d) (map snd d')"
      using rx ry
    proof (rule list_all2_join)
      fix u x y assume u: "u \<in> set (map snd kts)" "repr_from b1 h u x" "repr_from b2 h u y"
      have "wf_tree False u" using Suc.prems(3) Node u(1) by (auto simp: list_all_iff)
      moreover have "depth u \<le> n" using Suc.prems(4) Node u(1) by (auto simp: fold_max_le)
      ultimately have "py_eq n h x y = Inr True" using u(2,3) by (intro Suc.IH)
      then show "rich_eq (py_eq n h) x y = Inr True" by (rule rich_eq_TrueI)
    qed
    have ix: "dad_items h x = Inr d" using dx sx by (simp add: dad_items_def method_names_def)
    have iy: "dad_items h y = Inr d'" using dy sy by (simp add: dad_items_def method_names_def)
    have len: "length d = length d'" using kx ky by (metis length_map)
    have "items_eq (py_eq n h) d d' = Inr True"
      using vals kx ky by (simp add: items_eq_True_iff)
    then show ?thesis using a c dx dy ix iy len by simp
  qed
qed

text \<open>
  C7. For an accessor \<open>x\<close> built from a document and a recursion budget that covers its
  depth, \<open>x.sort()\<close> and the sort of its result both return, and the second result is equal
  (\<open>==\<close>) to the first: \<open>sort(sort(x)) == sort(x)\<close>.
\<close>

theorem C7_sort_is_idempotent:
  assumes "repr_from 0 h t (VRef r)" and "wf_tree False t" and "depth t \<le> n"
  shows "\<exists>h1 h2. dad_sort (None :: (string \<times> val \<Rightarrow> 'o::linorder) option) reverse n h r
              = Inr (h1, length h)
          \<and> dad_sort (None :: (string \<times> val \<Rightarrow> 'o::linorder) option) reverse n h1 (length h)
              = Inr (h2, length h1)
          \<and> py_eq n h2 (VRef (length h1)) (VRef (length h)) = Inr True"
proof -
  from assms(1,2) obtain kts where t: "t = Node kts" by (rule accessor_tree_is_Node)
  let ?T = "spec_sort reverse t"
  from dad_sort_refines [of h kts r n, where ?'o = 'o and reverse = reverse] assms t
  obtain h1 where s1: "dad_sort (None :: (string \<times> val \<Rightarrow> 'o) option) reverse n h r
        = Inr (h1, length h)"
    and r1: "repr_from (length h) h1 ?T (VRef (length h))"
    by (auto simp del: repr_from.simps spec_sort.simps wf_tree.simps depth.simps)
  obtain kts' where T: "?T = Node kts'" using t by simp
  have wT: "wf_tree False ?T" using assms(2) by (rule wf_tree_spec_sort)
  have dT: "depth ?T \<le> n" using assms(3) by (rule depth_spec_sort)
  have r1': "repr_from 0 h1 ?T (VRef (length h))" using r1 by (rule repr_from_weaken) simp
  from dad_sort_refines [of h1 kts' "length h" n, where ?'o = 'o and reverse = reverse]
    r1' wT dT T
  obtain h2 where s2: "dad_sort (None :: (string \<times> val \<Rightarrow> 'o) option) reverse n h1 (length h)
        = Inr (h2, length h1)"
    and t2: "take (length h1) h2 = h1"
    and r2: "repr_from (length h1) h2 (spec_sort reverse ?T) (VRef (length h1))"
    by (auto simp del: repr_from.simps spec_sort.simps wf_tree.simps depth.simps)
  have a: "repr_from (length h1) h2 ?T (VRef (length h1))"
    using r2 by (simp only: spec_sort_idem)
  have b: "repr_from 0 h2 ?T (VRef (length h))" using r1' t2 by (rule repr_from_extend)
  have "py_eq n h2 (VRef (length h1)) (VRef (length h)) = Inr True"
    using a b wT dT by (rule eq_same_tree)
  with s1 s2 show ?thesis by blast
qed

section \<open>Equality of accessors\<close>

lemma rich_eq_plain: "document a \<Longrightarrow> rich_eq eq a b = eq a b"
  by (cases a) (simp_all add: rich_eq_def)

lemma list_eq_val:
  "length xs = length ys \<Longrightarrow> \<forall>a\<in>set xs. \<forall>c. rich_eq eq a c = Inr (R a c) \<Longrightarrow>
   list_eq eq xs ys = Inr (list_all2 R xs ys)"
proof (induction xs arbitrary: ys)
  case Nil
  then show ?case by simp
next
  case (Cons a xs)
  then obtain c ys' where ys: "ys = c # ys'" by (cases ys) auto
  with Cons show ?case by (cases "R a c") simp_all
qed

lemma dict_eq_val:
  "\<forall>kv\<in>set xs. \<forall>c. rich_eq eq (snd kv) c = Inr (R (snd kv) c) \<Longrightarrow>
   dict_eq eq xs ys =
     Inr (list_all (\<lambda>kv. case map_of ys (fst kv) of None \<Rightarrow> False | Some v' \<Rightarrow> R (snd kv) v') xs)"
proof (induction xs)
  case Nil
  then show ?case by simp
next
  case (Cons kv xs)
  obtain k v where kv: "kv = (k, v)" by (cases kv)
  show ?case
  proof (cases "map_of ys k")
    case None
    then show ?thesis using kv by simp
  next
    case (Some v')
    have "rich_eq eq v v' = Inr (R v v')" using Cons.prems kv by simp
    then show ?thesis using Some kv Cons by (cases "R v v'") simp_all
  qed
qed

lemma py_eq_document:
  "document p \<Longrightarrow> vdepth p \<le> n \<Longrightarrow> py_eq n h p q = Inr (val_eq p q)"
proof (induction n arbitrary: p q)
  case 0
  then show ?case using vdepth_pos [of p] by simp
next
  case (Suc n)
  show ?case
  proof (cases p)
    case (VList xs)
    have pw: "\<forall>a\<in>set xs. \<forall>c. rich_eq (py_eq n h) a c = Inr (val_eq a c)"
    proof (intro ballI allI)
      fix a c assume "a \<in> set xs"
      then have "document a" "vdepth a \<le> n"
        using Suc.prems VList by (auto simp: list_all_iff fold_max_le)
      then show "rich_eq (py_eq n h) a c = Inr (val_eq a c)"
        by (simp add: rich_eq_plain Suc.IH)
    qed
    show ?thesis
    proof (cases q)
      case q: (VList ys)
      show ?thesis
      proof (cases "length xs = length ys")
        case True
        then show ?thesis using VList q list_eq_val [OF True pw] by simp
      next
        case False
        then have "\<not> list_all2 val_eq xs ys" by (auto dest: list_all2_lengthD)
        then show ?thesis using VList q False by simp
      qed
    qed (simp_all add: VList)
  next
    case (VDict xs)
    have pw: "\<forall>kv\<in>set xs. \<forall>c. rich_eq (py_eq n h) (snd kv) c = Inr (val_eq (snd kv) c)"
    proof (intro ballI allI)
      fix kv c assume "kv \<in> set xs"
      then have "snd kv \<in> set (map snd xs)" by simp
      then have "document (snd kv)" "vdepth (snd kv) \<le> n"
        using Suc.prems VDict by (auto simp: list_all_iff fold_max_le)
      then show "rich_eq (py_eq n h) (snd kv) c = Inr (val_eq (snd kv) c)"
        by (simp add: rich_eq_plain Suc.IH)
    qed
    show ?thesis
    proof (cases q)
      case q: (VDict ys)
      show ?thesis using VDict q dict_eq_val [OF pw, of ys] by simp
    qed (simp_all add: VDict)
  next
    case (VRef r)
    with Suc.prems show ?thesis by simp
  qed simp_all
qed

lemma val_eq_refl: "document p \<Longrightarrow> val_eq p p"
proof (induction p)
  case (VList xs)
  then show ?case by (auto simp: list_all_iff intro!: list.rel_refl_strong)
next
  case (VDict kvs)
  have "list_all (\<lambda>kv. case map_of kvs (fst kv) of None \<Rightarrow> False
                        | Some v' \<Rightarrow> val_eq (snd kv) v') kvs"
    unfolding list_all_iff
  proof
    fix kv assume m: "kv \<in> set kvs"
    then have "map_of kvs (fst kv) = Some (snd kv)"
      using VDict.prems map_of_is_SomeI [of kvs "fst kv" "snd kv"] by simp
    moreover have "val_eq (snd kv) (snd kv)"
      using VDict.IH [of kv "snd kv"] m VDict.prems by (auto simp: list_all_iff snds.simps)
    ultimately show "case map_of kvs (fst kv) of None \<Rightarrow> False | Some v' \<Rightarrow> val_eq (snd kv) v'"
      by simp
  qed
  then show ?case by simp
qed (simp_all add: scalar_eq_def)

lemma tree_eq_refl: "wf_tree f t \<Longrightarrow> tree_eq t t"
proof (induction t arbitrary: f)
  case (Leaf p)
  then show ?case by (simp add: val_eq_refl)
next
  case (Seq ts)
  then show ?case by (auto simp: list_all_iff intro!: list.rel_refl_strong)
next
  case (Node kts)
  have "list_all2 tree_eq (map snd kts) (map snd kts)"
  proof (rule list.rel_refl_strong)
    fix t assume "t \<in> set (map snd kts)"
    then show "tree_eq t t" using Node by (auto simp: list_all_iff snds.simps)
  qed
  then show ?case by simp
qed

lemma list_all2_join2:
  assumes "list_all2 P ts xs" and "list_all2 Q us xs"
    and "\<And>t u x. t \<in> set ts \<Longrightarrow> u \<in> set us \<Longrightarrow> P t x \<Longrightarrow> Q u x \<Longrightarrow> R t u"
  shows "list_all2 R ts us"
proof (rule list_all2_all_nthI)
  show l: "length ts = length us"
    using assms(1,2) by (metis list_all2_lengthD)
  fix i assume i: "i < length ts"
  have "P (ts ! i) (xs ! i)" using assms(1) i by (rule list_all2_nthD)
  moreover have "Q (us ! i) (xs ! i)" using assms(2) i l by (simp add: list_all2_nthD)
  ultimately show "R (ts ! i) (us ! i)" using assms(3) i l by simp
qed

lemma repr_unique:
  "repr_from b1 h t v \<Longrightarrow> repr_from b2 h u v \<Longrightarrow> wf_tree f t \<Longrightarrow> wf_tree f u \<Longrightarrow> t = u"
proof (induction t arbitrary: u v f)
  case (Leaf p)
  then show ?case by (cases u) (auto split: val.splits)
next
  case (Seq ts)
  from Seq.prems(1) obtain xs where v: "v = VList xs"
    and rx: "list_all2 (repr_from b1 h) ts xs"
    by (auto elim!: repr_Seq_D simp del: repr_from.simps)
  from Seq.prems(3) have f: "\<not> f" and wt: "list_all (wf_tree True) ts" by simp_all
  show ?case
  proof (cases u)
    case (Leaf q)
    with Seq.prems(2,4) v f show ?thesis by auto
  next
    case u: (Seq us)
    from Seq.prems(2) u v have ry: "list_all2 (repr_from b2 h) us xs" by simp
    from Seq.prems(4) u have wu: "list_all (wf_tree True) us" by simp
    have "list_all2 (=) ts us"
      using rx ry
    proof (rule list_all2_join2)
      fix t u' x assume "t \<in> set ts" "u' \<in> set us" "repr_from b1 h t x" "repr_from b2 h u' x"
      then show "t = u'" using Seq.IH wt wu by (auto simp: list_all_iff)
    qed
    then show ?thesis using u by (simp add: list.rel_eq)
  next
    case (Node kus)
    with Seq.prems(2) v show ?thesis by simp
  qed
next
  case (Node kts)
  from Node.prems(1) obtain x d at where v: "v = VRef x"
    and dx: "deref h x = Some (DotAccessDict d d at)"
    and kx: "map fst d = map fst kts"
    and rx: "list_all2 (repr_from b1 h) (map snd kts) (map snd d)"
    by (auto elim!: repr_Node_D simp del: repr_from.simps)
  from Node.prems(3) have wt: "list_all (wf_tree False) (map snd kts)" by simp
  show ?case
  proof (cases u)
    case (Leaf q)
    with Node.prems(2,4) v show ?thesis by auto
  next
    case (Seq us)
    with Node.prems(2) v show ?thesis by simp
  next
    case u: (Node kus)
    from Node.prems(2) u v dx have ku: "map fst d = map fst kus"
      and ru: "list_all2 (repr_from b2 h) (map snd kus) (map snd d)"
      by simp_all
    from Node.prems(4) u have wu: "list_all (wf_tree False) (map snd kus)" by simp
    have "list_all2 (=) (map snd kts) (map snd kus)"
      using rx ru
    proof (rule list_all2_join2)
      fix t u' x assume a: "t \<in> set (map snd kts)" "u' \<in> set (map snd kus)"
        "repr_from b1 h t x" "repr_from b2 h u' x"
      from a(1) obtain k where k: "(k, t) \<in> set kts" by auto
      have "wf_tree False t" "wf_tree False u'"
        using a(1,2) wt wu by (auto simp: list_all_iff)
      with a(3,4) show "t = u'"
        using Node.IH [of "(k, t)" t x u' False] k by (simp add: snds.simps)
    qed
    then have "map snd kts = map snd kus" by (simp add: list.rel_eq)
    moreover have "map fst kts = map fst kus" using kx ku by simp
    ultimately have "kts = kus" by (metis zip_map_fst_snd)
    then show ?thesis using u by simp
  qed
qed


lemma list_eq_rel:
  "list_all2 P ts xs \<Longrightarrow> list_all2 Q us ys \<Longrightarrow> length xs = length ys \<Longrightarrow>
   \<forall>t\<in>set ts. \<forall>u\<in>set us. \<forall>a c. P t a \<longrightarrow> Q u c \<longrightarrow> rich_eq eq a c = Inr (R t u) \<Longrightarrow>
   list_eq eq xs ys = Inr (list_all2 R ts us)"
proof (induction ts arbitrary: xs us ys)
  case Nil
  then show ?case by simp
next
  case (Cons t ts)
  from Cons.prems(1) obtain a xs' where xs: "xs = a # xs'" "P t a" "list_all2 P ts xs'"
    by (auto simp: list_all2_Cons1)
  from Cons.prems(3) xs(1) obtain c ys' where ys: "ys = c # ys'" "length xs' = length ys'"
    by (cases ys) auto
  from Cons.prems(2) ys(1) obtain u us' where us: "us = u # us'" "Q u c" "list_all2 Q us' ys'"
    by (auto simp: list_all2_Cons2)
  have hd: "rich_eq eq a c = Inr (R t u)" using Cons.prems(4) xs(2) us(1,2) by simp
  have "list_eq eq xs' ys' = Inr (list_all2 R ts us')"
    using xs(3) us(3) ys(2) Cons.prems(4) us(1) by (intro Cons.IH) simp_all
  then show ?case using xs(1) ys(1) us(1) hd by (cases "R t u") simp_all
qed

lemma items_eq_rel:
  "list_all2 P ts (map snd d) \<Longrightarrow> list_all2 Q us (map snd d') \<Longrightarrow> length d = length d' \<Longrightarrow>
   \<forall>t\<in>set ts. \<forall>u\<in>set us. \<forall>a c. P t a \<longrightarrow> Q u c \<longrightarrow> rich_eq eq a c = Inr (R t u) \<Longrightarrow>
   items_eq eq d d' = Inr (map fst d = map fst d' \<and> list_all2 R ts us)"
proof (induction ts arbitrary: d us d')
  case Nil
  then show ?case by simp
next
  case (Cons t ts)
  from Cons.prems(1) obtain k a d1 where d: "d = (k, a) # d1" "P t a"
    "list_all2 P ts (map snd d1)"
    by (cases d) (auto simp: list_all2_Cons1)
  from Cons.prems(3) d(1) obtain k' c d1' where d': "d' = (k', c) # d1'"
    "length d1 = length d1'"
    by (cases d') auto
  from Cons.prems(2) d'(1) obtain u us' where us: "us = u # us'" "Q u c"
    "list_all2 Q us' (map snd d1')"
    by (auto simp: list_all2_Cons2)
  have hd: "rich_eq eq a c = Inr (R t u)" using Cons.prems(4) d(2) us(1,2) by simp
  have "items_eq eq d1 d1' = Inr (map fst d1 = map fst d1' \<and> list_all2 R ts us')"
    using d(3) us(3) d'(2) Cons.prems(4) us(1) by (intro Cons.IH) simp_all
  then show ?case using d(1) d'(1) us(1) hd by (cases "R t u") auto
qed

lemma py_eq_refines:
  "repr_from b1 h t a \<Longrightarrow> repr_from b2 h u c \<Longrightarrow> wf_tree f t \<Longrightarrow> wf_tree f u \<Longrightarrow>
   depth t \<le> n \<Longrightarrow> py_eq n h a c = Inr (tree_eq t u)"
proof (induction n arbitrary: t u a c f)
  case 0
  then show ?case using depth_pos [of t] by simp
next
  case (Suc n)
  have pw: "rich_eq (py_eq n h) a' c' = Inr (tree_eq t' u')"
    if "repr_from b1 h t' a'" "repr_from b2 h u' c'" "wf_tree f' t'" "wf_tree f' u'"
      "depth t' \<le> n" for t' u' a' c' f'
  proof (cases "\<exists>r. a' = VRef r \<and> c' = VRef r")
    case True
    then have "a' = c'" by auto
    with that have "t' = u'" by (auto intro: repr_unique)
    then have "tree_eq t' u'" using that(3) by (simp add: tree_eq_refl)
    then show ?thesis using True by (auto simp: rich_eq_def)
  next
    case False
    then have "rich_eq (py_eq n h) a' c' = py_eq n h a' c'"
      by (auto simp: rich_eq_def split: val.splits)
    then show ?thesis using that by (simp add: Suc.IH)
  qed
  show ?case
  proof (cases t)
    case (Leaf p)
    with Suc.prems have a: "a = p" and dp: "document p" and vp: "vdepth p \<le> Suc n"
      by simp_all
    show ?thesis
    proof (cases u)
      case u: (Leaf q)
      with Suc.prems(2) have "c = q" by simp
      then show ?thesis using Leaf u a py_eq_document [OF dp vp] by simp
    next
      case u: (Seq us)
      from Suc.prems(2) u obtain ys where c: "c = VList ys"
        by (auto elim!: repr_Seq_D simp del: repr_from.simps)
      from Suc.prems(4) u have "\<not> f" by simp
      with Suc.prems(3) Leaf have "\<forall>xs. p \<noteq> VList xs" by auto
      then show ?thesis using Leaf u a c dp by (cases p) (simp_all add: scalar_eq_def)
    next
      case u: (Node kus)
      from Suc.prems(2) u obtain y where c: "c = VRef y"
        by (auto elim!: repr_Node_D simp del: repr_from.simps)
      then show ?thesis using Leaf u a dp by (cases p) (simp_all add: scalar_eq_def)
    qed
  next
    case (Seq ts)
    from Suc.prems(1) Seq obtain xs where a: "a = VList xs"
      and rx: "list_all2 (repr_from b1 h) ts xs"
      by (auto elim!: repr_Seq_D simp del: repr_from.simps)
    from Suc.prems(3) Seq have f: "\<not> f" and wt: "list_all (wf_tree True) ts" by simp_all
    show ?thesis
    proof (cases u)
      case u: (Leaf q)
      with Suc.prems(2,4) f have "c = q" "\<forall>ys. q \<noteq> VList ys" by auto
      then show ?thesis using Seq u a by (cases q) simp_all
    next
      case u: (Seq us)
      from Suc.prems(2) u obtain ys where c: "c = VList ys"
        and ry: "list_all2 (repr_from b2 h) us ys"
        by (auto elim!: repr_Seq_D simp del: repr_from.simps)
      from Suc.prems(4) u have wu: "list_all (wf_tree True) us" by simp
      show ?thesis
      proof (cases "length xs = length ys")
        case True
        have "list_eq (py_eq n h) xs ys = Inr (list_all2 tree_eq ts us)"
          using rx ry True
        proof (rule list_eq_rel)
          show "\<forall>t\<in>set ts. \<forall>u\<in>set us. \<forall>a c. repr_from b1 h t a \<longrightarrow> repr_from b2 h u c \<longrightarrow>
                  rich_eq (py_eq n h) a c = Inr (tree_eq t u)"
          proof (intro ballI allI impI)
            fix t' u' a' c'
            assume m: "t' \<in> set ts" "u' \<in> set us" "repr_from b1 h t' a'" "repr_from b2 h u' c'"
            have "wf_tree True t'" "wf_tree True u'" using m(1,2) wt wu
              by (auto simp: list_all_iff)
            moreover have "depth t' \<le> n" using Suc.prems(5) Seq m(1)
              by (auto simp: fold_max_le)
            ultimately show "rich_eq (py_eq n h) a' c' = Inr (tree_eq t' u')"
              using m(3,4) by (intro pw)
          qed
        qed
        then show ?thesis using Seq u a c True by simp
      next
        case False
        then have "length ts \<noteq> length us"
          using list_all2_lengthD [OF rx] list_all2_lengthD [OF ry] by simp
        then have "\<not> list_all2 tree_eq ts us" by (auto dest: list_all2_lengthD)
        then show ?thesis using Seq u a c False by simp
      qed
    next
      case u: (Node kus)
      from Suc.prems(2) u obtain y where c: "c = VRef y"
        by (auto elim!: repr_Node_D simp del: repr_from.simps)
      then show ?thesis using Seq u a by simp
    qed
  next
    case (Node kts)
    from Suc.prems(1) Node obtain x d at where a: "a = VRef x"
      and dx: "deref h x = Some (DotAccessDict d d at)"
      and sx: "list_all (\<lambda>m. map_of at m = None) method_names"
      and kx: "map fst d = map fst kts"
      and rx: "list_all2 (repr_from b1 h) (map snd kts) (map snd d)"
      by (auto elim!: repr_Node_D simp del: repr_from.simps)
    from Suc.prems(3) Node have wt: "list_all (wf_tree False) (map snd kts)" by simp
    show ?thesis
    proof (cases u)
      case u: (Leaf q)
      with Suc.prems(2,4) have "c = q" "document q" by simp_all
      then show ?thesis using Node u a dx by (cases q) simp_all
    next
      case u: (Seq us)
      from Suc.prems(2) u obtain ys where c: "c = VList ys"
        by (auto elim!: repr_Seq_D simp del: repr_from.simps)
      then show ?thesis using Node u a dx by simp
    next
      case u: (Node kus)
      from Suc.prems(2) u obtain y d' at' where c: "c = VRef y"
        and dy: "deref h y = Some (DotAccessDict d' d' at')"
        and sy: "list_all (\<lambda>m. map_of at' m = None) method_names"
        and ky: "map fst d' = map fst kus"
        and ry: "list_all2 (repr_from b2 h) (map snd kus) (map snd d')"
        by (auto elim!: repr_Node_D simp del: repr_from.simps)
      from Suc.prems(4) u have wu: "list_all (wf_tree False) (map snd kus)" by simp
      have ix: "dad_items h x = Inr d" using dx sx by (simp add: dad_items_def method_names_def)
      have iy: "dad_items h y = Inr d'" using dy sy by (simp add: dad_items_def method_names_def)
      have py: "py_eq (Suc n) h a c =
          (if length d \<noteq> length d' then Inr False else items_eq (py_eq n h) d d')"
        using a c dx dy ix iy by simp
      show ?thesis
      proof (cases "length d = length d'")
        case True
        have "items_eq (py_eq n h) d d'
            = Inr (map fst d = map fst d' \<and> list_all2 tree_eq (map snd kts) (map snd kus))"
          using rx ry True
        proof (rule items_eq_rel)
          show "\<forall>t\<in>set (map snd kts). \<forall>u\<in>set (map snd kus). \<forall>a c.
                  repr_from b1 h t a \<longrightarrow> repr_from b2 h u c \<longrightarrow>
                  rich_eq (py_eq n h) a c = Inr (tree_eq t u)"
          proof (intro ballI allI impI)
            fix t' u' a' c'
            assume m: "t' \<in> set (map snd kts)" "u' \<in> set (map snd kus)"
              "repr_from b1 h t' a'" "repr_from b2 h u' c'"
            have "wf_tree False t'" "wf_tree False u'" using m(1,2) wt wu
              by (auto simp: list_all_iff)
            moreover have "depth t' \<le> n" using Suc.prems(5) Node m(1)
              by (auto simp: fold_max_le)
            ultimately show "rich_eq (py_eq n h) a' c' = Inr (tree_eq t' u')"
              using m(3,4) by (intro pw)
          qed
        qed
        then show ?thesis using py True Node u kx ky by simp
      next
        case False
        then have "length kts \<noteq> length kus"
          using kx ky by (metis length_map)
        then have "map fst kts \<noteq> map fst kus" by (metis length_map)
        then show ?thesis using py False Node u by simp
      qed
    qed
  qed
qed


lemma list_all2_eq_iff:
  "\<forall>x\<in>set xs. \<forall>y\<in>set ys. R x y = (x = y) \<Longrightarrow> list_all2 R xs ys = (xs = ys)"
proof (induction xs arbitrary: ys)
  case Nil
  then show ?case by auto
next
  case (Cons x xs)
  then show ?case by (cases ys) auto
qed

lemma val_eq_iff_eq: "plain_val p \<Longrightarrow> plain_val q \<Longrightarrow> val_eq p q = (p = q)"
proof (induction p arbitrary: q)
  case (VList xs)
  show ?case
  proof (cases q)
    case q: (VList ys)
    have "list_all2 val_eq xs ys = (xs = ys)"
    proof (rule list_all2_eq_iff, intro ballI)
      fix x y assume "x \<in> set xs" "y \<in> set ys"
      then show "val_eq x y = (x = y)"
        using VList q by (auto simp: list_all_iff)
    qed
    then show ?thesis using q by simp
  qed simp_all
next
  case VNone
  then show ?case by (cases q) (simp_all add: scalar_eq_def)
next
  case (VInt i)
  then show ?case by (cases q) (simp_all add: scalar_eq_def)
next
  case (VStr s)
  then show ?case by (cases q) (simp_all add: scalar_eq_def)
qed simp_all

lemma tree_eq_iff_eq: "plain_tree t \<Longrightarrow> plain_tree u \<Longrightarrow> tree_eq t u = (t = u)"
proof (induction t arbitrary: u)
  case (Leaf p)
  then show ?case by (cases u) (simp_all add: val_eq_iff_eq)
next
  case (Seq ts)
  show ?case
  proof (cases u)
    case u: (Seq us)
    have "list_all2 tree_eq ts us = (ts = us)"
    proof (rule list_all2_eq_iff, intro ballI)
      fix x y assume "x \<in> set ts" "y \<in> set us"
      then show "tree_eq x y = (x = y)"
        using Seq u by (auto simp: list_all_iff)
    qed
    then show ?thesis using u by simp
  qed simp_all
next
  case (Node kts)
  show ?case
  proof (cases u)
    case u: (Node kus)
    have "list_all2 tree_eq (map snd kts) (map snd kus) = (map snd kts = map snd kus)"
    proof (rule list_all2_eq_iff, intro ballI)
      fix x y assume m: "x \<in> set (map snd kts)" "y \<in> set (map snd kus)"
      from m(1) obtain k where "(k, x) \<in> set kts" by auto
      then show "tree_eq x y = (x = y)"
        using Node.IH [of "(k, x)" x y] Node.prems u m by (auto simp: list_all_iff snds.simps)
    qed
    moreover have "(map fst kts = map fst kus \<and> map snd kts = map snd kus) = (kts = kus)"
      by (metis zip_map_fst_snd)
    ultimately show ?thesis using u by auto
  qed simp_all
qed

lemma accessor_eq_unfold:
  assumes "deref h x = Some (DotAccessDict d ns at)" and "map_of at ''items'' = None"
    and "deref h y = Some (DotAccessDict d' ns' at')" and "map_of at' ''items'' = None"
  shows "(py_eq (Suc n) h (VRef x) (VRef y) = Inr True) =
            (map fst d = map fst d' \<and>
             list_all2 (\<lambda>v v'. rich_eq (py_eq n h) v v' = Inr True) (map snd d) (map snd d'))"
proof -
  have "py_eq (Suc n) h (VRef x) (VRef y) =
          (if length d \<noteq> length d' then Inr False else items_eq (py_eq n h) d d')"
    using assms by (simp add: dad_items_def)
  moreover have "map fst d = map fst d' \<Longrightarrow> length d = length d'"
    by (metis length_map)
  ultimately show ?thesis by (auto simp: items_eq_True_iff)
qed

text \<open>
  C4. For two accessors \<open>x\<close> and \<open>y\<close> built from documents (they represent well-formed
  trees) and a recursion budget that covers the depth of \<open>x\<close>, \<open>x == y\<close> returns, and it
  returns whether the two trees are equal as the specification words it: the same keys in
  the same order, and the values under them equal, nested accessors recursively. Where no
  leaf holds a boolean or a plain dictionary this is identity of the trees. For any two
  accessors, whatever they hold, \<open>x == y\<close> is \<open>True\<close> exactly when their item lists have
  the same keys in the same order and the values are pairwise \<open>==\<close>; so accessors with the
  same entries in a different order are not equal. Comparing an accessor with a value that
  is no accessor, from either side, gives \<open>False\<close> and does not raise.
\<close>

theorem C4_equality_is_ordered_and_recursive:
  "(repr_from 0 h t (VRef x) \<and> repr_from 0 h u (VRef y) \<and> wf_tree False t \<and> wf_tree False u
      \<and> depth t \<le> n \<longrightarrow>
        py_eq n h (VRef x) (VRef y) = Inr (tree_eq t u)
        \<and> (plain_tree t \<and> plain_tree u \<longrightarrow> py_eq n h (VRef x) (VRef y) = Inr (t = u)))
   \<and> (deref h x = Some (DotAccessDict d ns at) \<and> map_of at ''items'' = None
      \<and> deref h y = Some (DotAccessDict d' ns' at') \<and> map_of at' ''items'' = None \<longrightarrow>
        (py_eq (Suc m) h (VRef x) (VRef y) = Inr True) =
            (map fst d = map fst d' \<and>
             list_all2 (\<lambda>v v'. rich_eq (py_eq m h) v v' = Inr True) (map snd d) (map snd d')))
   \<and> (deref h x = Some (DotAccessDict d ns at) \<longrightarrow>
        (deref h z = Some SafeNone \<longrightarrow> py_eq (Suc m) h (VRef x) (VRef z) = Inr False
            \<and> py_eq (Suc m) h (VRef z) (VRef x) = Inr False)
        \<and> py_eq (Suc m) h (VRef x) VNone = Inr False
        \<and> py_eq (Suc m) h (VRef x) (VBool b) = Inr False
        \<and> py_eq (Suc m) h (VRef x) (VInt i) = Inr False
        \<and> py_eq (Suc m) h (VRef x) (VStr s) = Inr False
        \<and> py_eq (Suc m) h (VRef x) (VList vs) = Inr False
        \<and> py_eq (Suc m) h (VRef x) (VDict kvs) = Inr False
        \<and> py_eq (Suc m) h VNone (VRef x) = Inr False
        \<and> py_eq (Suc m) h (VBool b) (VRef x) = Inr False
        \<and> py_eq (Suc m) h (VInt i) (VRef x) = Inr False
        \<and> py_eq (Suc m) h (VStr s) (VRef x) = Inr False
        \<and> py_eq (Suc m) h (VList vs) (VRef x) = Inr False
        \<and> py_eq (Suc m) h (VDict kvs) (VRef x) = Inr False)"
proof (intro conjI impI)
  assume a: "repr_from 0 h t (VRef x) \<and> repr_from 0 h u (VRef y) \<and> wf_tree False t
      \<and> wf_tree False u \<and> depth t \<le> n"
  then show r: "py_eq n h (VRef x) (VRef y) = Inr (tree_eq t u)"
    by (intro py_eq_refines [of 0 h t "VRef x" 0 u "VRef y" False n]) simp_all
  assume "plain_tree t \<and> plain_tree u"
  then show "py_eq n h (VRef x) (VRef y) = Inr (t = u)"
    using r by (simp add: tree_eq_iff_eq)
next
  assume "deref h x = Some (DotAccessDict d ns at) \<and> map_of at ''items'' = None
      \<and> deref h y = Some (DotAccessDict d' ns' at') \<and> map_of at' ''items'' = None"
  then show "(py_eq (Suc m) h (VRef x) (VRef y) = Inr True) =
            (map fst d = map fst d' \<and>
             list_all2 (\<lambda>v v'. rich_eq (py_eq m h) v v' = Inr True) (map snd d) (map snd d'))"
    using accessor_eq_unfold [of h x d ns at y d' ns' at' m] by simp
qed (auto simp: scalar_eq_def)


theorem C4_equality_is_ordered_and_recursive_witness:
  "repr_from 0 eq_heap (Node [(''a'', Leaf (VInt 1)), (''b'', Node [(''c'', Leaf (VInt 2))])]) (VRef 0)
   \<and> repr_from 0 eq_heap (Node [(''a'', Leaf (VInt 1)), (''b'', Node [(''c'', Leaf (VInt 2))])]) (VRef 2)
   \<and> repr_from 0 eq_heap (Node [(''a'', Leaf (VInt 1)), (''b'', Node [(''c'', Leaf (VInt 3))])]) (VRef 4)
   \<and> repr_from 0 eq_heap (Node [(''b'', Node [(''c'', Leaf (VInt 2))]), (''a'', Leaf (VInt 1))]) (VRef 6)
   \<and> py_eq 3 eq_heap (VRef 0) (VRef 2) = Inr True
   \<and> py_eq 3 eq_heap (VRef 0) (VRef 4) = Inr False
   \<and> py_eq 3 eq_heap (VRef 0) (VRef 6) = Inr False
   \<and> py_eq 3 eq_heap (VRef 0) (VRef 7) = Inr False
   \<and> py_eq 3 eq_heap (VRef 7) (VRef 0) = Inr False
   \<and> py_eq 3 eq_heap (VRef 0) (VDict [(''a'', VInt 1), (''b'', VDict [(''c'', VInt 2)])]) = Inr False
   \<and> py_eq 3 eq_heap VNone (VRef 0) = Inr False"
  using C4_equality_is_ordered_and_recursive
      [where h = eq_heap and x = 0 and y = 2 and n = 3 and m = 2 and z = 7
         and t = "Node [(''a'', Leaf (VInt 1)), (''b'', Node [(''c'', Leaf (VInt 2))])]"
         and u = "Node [(''a'', Leaf (VInt 1)), (''b'', Node [(''c'', Leaf (VInt 2))])]"
         and d = "[(''a'', VInt 1), (''b'', VRef 1)]" and ns = "[(''a'', VInt 1), (''b'', VRef 1)]"
         and at = "[]"
         and d' = "[(''a'', VInt 1), (''b'', VRef 3)]" and ns' = "[(''a'', VInt 1), (''b'', VRef 3)]"
         and at' = "[]"
         and kvs = "[(''a'', VInt 1), (''b'', VDict [(''c'', VInt 2)])]"
         and b = True and i = 0 and s = "[]" and vs = "[]"]
    C4_equality_is_ordered_and_recursive
      [where h = eq_heap and x = 0 and y = 4 and n = 3 and m = 2 and z = 7
         and t = "Node [(''a'', Leaf (VInt 1)), (''b'', Node [(''c'', Leaf (VInt 2))])]"
         and u = "Node [(''a'', Leaf (VInt 1)), (''b'', Node [(''c'', Leaf (VInt 3))])]"
         and d = "[(''a'', VInt 1), (''b'', VRef 1)]" and ns = "[(''a'', VInt 1), (''b'', VRef 1)]"
         and at = "[]"
         and d' = "[(''a'', VInt 1), (''b'', VRef 5)]" and ns' = "[(''a'', VInt 1), (''b'', VRef 5)]"
         and at' = "[]"
         and kvs = "[]" and b = True and i = 0 and s = "[]" and vs = "[]"]
    C4_equality_is_ordered_and_recursive
      [where h = eq_heap and x = 0 and y = 6 and n = 3 and m = 2 and z = 7
         and t = "Node [(''a'', Leaf (VInt 1)), (''b'', Node [(''c'', Leaf (VInt 2))])]"
         and u = "Node [(''b'', Node [(''c'', Leaf (VInt 2))]), (''a'', Leaf (VInt 1))]"
         and d = "[(''a'', VInt 1), (''b'', VRef 1)]" and ns = "[(''a'', VInt 1), (''b'', VRef 1)]"
         and at = "[]"
         and d' = "[(''b'', VRef 1), (''a'', VInt 1)]" and ns' = "[(''b'', VRef 1), (''a'', VInt 1)]"
         and at' = "[]"
         and kvs = "[]" and b = True and i = 0 and s = "[]" and vs = "[]"]
  by (simp add: eq_heap_def deref_def method_names_def dad_items_def rich_eq_def scalar_eq_def
      eval_nat_numeral)

section \<open>The example, sorted and sorted again\<close>

lemma example_resort:
  "dad_sort (None :: (string \<times> val \<Rightarrow> unit) option) False 4 (example_heap @ example_sorted) 3
     = Inr (example_heap @ example_sorted @ example_resorted, 6)"
  by (simp add: example_heap_def example_sorted_def example_resorted_def eval_nat_numeral
      alloc_def sorted_items_def py_sorted_def store_entry_def deref_def)

lemma example_eq:
  "py_eq 4 (example_heap @ example_sorted @ example_resorted) (VRef 6) (VRef 3) = Inr True
   \<and> py_eq 4 (example_heap @ example_sorted @ example_resorted) (VRef 3) (VRef 0) = Inr False"
  by (simp add: example_heap_def example_sorted_def example_resorted_def eval_nat_numeral
      deref_def dad_items_def rich_eq_def scalar_eq_def)

lemma example_length: "length example_heap = 3"
  by (simp add: example_heap_def)

lemma example_spec_sort:
  "spec_sort False (wrapped False example_source)
     = Node [(''a'', Seq [Node [(''c'', Leaf (VInt 2)), (''d'', Leaf (VInt 1))], Leaf (VInt 3)]),
             (''b'', Node [(''x'', Leaf (VInt 2)), (''y'', Leaf (VInt 1))])]"
  by (simp add: example_source_def py_sorted_def)

lemma example_box_sort:
  "sort_nested_dictionary example_source
     = VDict [(''a'', VList [VDict [(''c'', VInt 2), (''d'', VInt 1)], VInt 3]),
              (''b'', VDict [(''x'', VInt 2), (''y'', VInt 1)])]"
  by (simp add: example_source_def py_sorted_def)

theorem C6_sort_leaves_the_source_alone_witness:
  "repr_from 0 example_heap (wrapped False example_source) (VRef 0)
   \<and> wf_tree False (wrapped False example_source)
   \<and> depth (wrapped False example_source) \<le> 4
   \<and> dad_sort (None :: (string \<times> val \<Rightarrow> unit) option) False 4 example_heap 0
       = Inr (example_heap @ example_sorted, 3)
   \<and> deref example_heap 3 = None
   \<and> take 3 (example_heap @ example_sorted) = example_heap
   \<and> repr_from 0 (example_heap @ example_sorted) (wrapped False example_source) (VRef 0)"
  using C6_sort_leaves_the_source_alone
      [of example_heap "wrapped False example_source" 0 4 False
          "None :: (string \<times> val \<Rightarrow> unit) option" False 4, where ?'o = unit]
    example_sort example_repr
  by (simp add: example_length del: repr_from.simps dad_sort.simps wrapped.simps)

theorem C5_sort_orders_every_level_witness:
  "repr_from 0 example_heap (wrapped False example_source) (VRef 0)
   \<and> wf_tree False (wrapped False example_source)
   \<and> depth (wrapped False example_source) \<le> 4
   \<and> dad_sort (None :: (string \<times> val \<Rightarrow> unit) option) False 4 example_heap 0
       = Inr (example_heap @ example_sorted, 3)
   \<and> repr_from 3 (example_heap @ example_sorted)
        (spec_sort False (wrapped False example_source)) (VRef 3)
   \<and> spec_sort False (wrapped False example_source)
       = Node [(''a'', Seq [Node [(''c'', Leaf (VInt 2)), (''d'', Leaf (VInt 1))], Leaf (VInt 3)]),
               (''b'', Node [(''x'', Leaf (VInt 2)), (''y'', Leaf (VInt 1))])]
   \<and> sort_nested_dictionary example_source
       = VDict [(''a'', VList [VDict [(''c'', VInt 2), (''d'', VInt 1)], VInt 3]),
                (''b'', VDict [(''x'', VInt 2), (''y'', VInt 1)])]
   \<and> sort_nested_dictionary (VDict [(''y'', VInt 1), (''x'', VInt 2)])
       = VDict [(''x'', VInt 2), (''y'', VInt 1)]"
  using C5_sort_orders_every_level
      [where h = example_heap and t = "wrapped False example_source" and r = 0 and n = 4
         and reverse = False and v = example_source and xs = "[]"
         and kvs = "[(''y'', VInt 1), (''x'', VInt 2)]" and b = True and i = 0 and s = "[]"
         and ?'o = unit]
    example_sort example_repr example_spec_sort example_box_sort
  by (simp add: example_length py_sorted_def
      del: repr_from.simps dad_sort.simps wrapped.simps spec_sort.simps)

theorem C7_sort_is_idempotent_witness:
  "repr_from 0 example_heap (wrapped False example_source) (VRef 0)
   \<and> wf_tree False (wrapped False example_source)
   \<and> depth (wrapped False example_source) \<le> 4
   \<and> dad_sort (None :: (string \<times> val \<Rightarrow> unit) option) False 4 example_heap 0
       = Inr (example_heap @ example_sorted, 3)
   \<and> dad_sort (None :: (string \<times> val \<Rightarrow> unit) option) False 4 (example_heap @ example_sorted) 3
       = Inr (example_heap @ example_sorted @ example_resorted, 6)
   \<and> py_eq 4 (example_heap @ example_sorted @ example_resorted) (VRef 6) (VRef 3) = Inr True
   \<and> py_eq 4 (example_heap @ example_sorted @ example_resorted) (VRef 3) (VRef 0) = Inr False"
  using C7_sort_is_idempotent
      [of example_heap "wrapped False example_source" 0 4 False, where ?'o = unit]
    example_sort example_resort example_eq example_repr
  by (simp del: repr_from.simps dad_sort.simps py_eq.simps wrapped.simps)

section \<open>Assignment does not reach the ordered store\<close>

lemma deref_update_other: "y \<noteq> r \<Longrightarrow> deref (g[r := ob]) y = deref g y"
  by (simp add: deref_def)

lemma deref_update_same: "r < length g \<Longrightarrow> deref (g[r := ob]) r = Some ob"
  by (simp add: deref_def)

lemma dad_items_update:
  assumes "deref g r = Some (DotAccessDict d ns at)"
    and "map_of at' ''items'' = map_of at ''items''"
  shows "dad_items (g[r := DotAccessDict d ns at']) y = dad_items g y"
proof (cases "y = r")
  case True
  with assms show ?thesis
    by (auto simp: dad_items_def deref_update_same dest: deref_SomeD)
next
  case False
  then show ?thesis by (simp add: dad_items_def deref_update_other)
qed

lemma py_eq_update:
  assumes "deref g r = Some (DotAccessDict d ns at)"
    and "map_of at' ''items'' = map_of at ''items''"
  shows "py_eq n (g[r := DotAccessDict d ns at']) a b = py_eq n g a b"
proof (induction n arbitrary: a b)
  case 0
  then show ?case by simp
next
  case (Suc n)
  let ?g = "g[r := DotAccessDict d ns at']"
  have f: "py_eq n ?g = py_eq n g" using Suc.IH by (intro ext)
  have it: "\<And>y. dad_items ?g y = dad_items g y" using assms by (rule dad_items_update)
  have rl: "r < length g" using assms(1) by (auto dest: deref_SomeD)
  have dr: "\<And>y. deref ?g y = (if y = r then Some (DotAccessDict d ns at') else deref g y)"
    using rl by (simp add: deref_def)
  show ?case
    using assms(1)
    by (simp add: f it dr
          cong: if_cong sum.case_cong val.case_cong option.case_cong obj.case_cong)
       (auto split: val.splits option.splits obj.splits)
qed

lemma store_entry_update_commute:
  "result \<noteq> r \<Longrightarrow>
   store_entry (g[r := ob]) result k w = (store_entry g result k w)[r := ob]"
  by (auto simp: store_entry_def deref_update_other list_update_swap
      split: option.splits obj.splits)

lemma deref_store_entry_other: "y \<noteq> s \<Longrightarrow> deref (store_entry g s k w) y = deref g y"
  by (simp add: deref_def store_entry_nth_other)

lemma deref_extend: "deref g y = Some ob \<Longrightarrow> take (length g) g2 = g \<Longrightarrow> deref g2 y = Some ob"
  by (metis deref_SomeD deref_def le_trans not_le take_eq_length take_eq_nth)

lemma sort_seq_update:
  assumes rec: "\<And>g x. deref g r = Some (DotAccessDict d ns at) \<Longrightarrow>
      rec (g[r := DotAccessDict d ns at']) x =
        (case rec g x of Inl e \<Rightarrow> Inl e
         | Inr (g2, s) \<Rightarrow> Inr (g2[r := DotAccessDict d ns at'], s))"
    and frame: "\<And>g x g' s. rec g x = Inr (g', s) \<Longrightarrow>
                  s = length g \<and> length g < length g' \<and> take (length g) g' = g"
    and good: "deref g r = Some (DotAccessDict d ns at)"
  shows "sort_seq rec (g[r := DotAccessDict d ns at']) xs =
     (case sort_seq rec g xs of Inl e \<Rightarrow> Inl e
      | Inr (g2, ys) \<Rightarrow> Inr (g2[r := DotAccessDict d ns at'], ys))"
  using good
proof (induction xs arbitrary: g)
  case Nil
  then show ?case by simp
next
  case (Cons x xs)
  let ?u = "\<lambda>g. g[r := DotAccessDict d ns at']"
  have rl: "r < length g" using Cons.prems by (auto dest: deref_SomeD)
  show ?case
  proof (cases "\<exists>y d1 ns1 at1. x = VRef y \<and> deref g y = Some (DotAccessDict d1 ns1 at1)")
    case True
    then obtain y d1 ns1 at1 where x: "x = VRef y"
      and dy: "deref g y = Some (DotAccessDict d1 ns1 at1)" by blast
    obtain d2 ns2 at2 where dy': "deref (?u g) y = Some (DotAccessDict d2 ns2 at2)"
      using dy rl by (cases "y = r") (simp_all add: deref_update_same deref_update_other)
    show ?thesis
    proof (cases "rec g y")
      case (Inl e)
      then show ?thesis
        using x dy dy' rec [OF Cons.prems, of y]
        by (simp add: sort_seq_accessor del: sort_seq.simps)
    next
      case (Inr p)
      obtain g1 s where p: "p = (g1, s)" by (cases p)
      from frame [of g y g1 s] Inr p have "take (length g) g1 = g" by simp
      with Cons.prems have g1: "deref g1 r = Some (DotAccessDict d ns at)"
        by (rule deref_extend)
      show ?thesis
        using x dy dy' rec [OF Cons.prems, of y] Inr p Cons.IH [OF g1]
        by (simp add: sort_seq_accessor del: sort_seq.simps split: sum.splits)
    qed
  next
    case False
    have "\<And>y d1 ns1 at1. x = VRef y \<Longrightarrow> deref (?u g) y \<noteq> Some (DotAccessDict d1 ns1 at1)"
    proof -
      fix y d1 ns1 at1 assume x: "x = VRef y"
      show "deref (?u g) y \<noteq> Some (DotAccessDict d1 ns1 at1)"
        using False x Cons.prems by (cases "y = r") (auto simp: deref_update_other)
    qed
    then have "sort_seq rec (?u g) (x # xs) =
     (case sort_seq rec (?u g) xs of Inl e \<Rightarrow> Inl e | Inr (h2, ys) \<Rightarrow> Inr (h2, x # ys))"
      by (rule sort_seq_other)
    moreover have "sort_seq rec g (x # xs) =
     (case sort_seq rec g xs of Inl e \<Rightarrow> Inl e | Inr (h2, ys) \<Rightarrow> Inr (h2, x # ys))"
      using False by (intro sort_seq_other) blast
    ultimately show ?thesis
      using Cons.IH [OF Cons.prems] by (simp del: sort_seq.simps split: sum.splits)
  qed
qed

lemma sort_loop_update:
  assumes rec: "\<And>g x. deref g r = Some (DotAccessDict d ns at) \<Longrightarrow>
      rec (g[r := DotAccessDict d ns at']) x =
        (case rec g x of Inl e \<Rightarrow> Inl e
         | Inr (g2, s) \<Rightarrow> Inr (g2[r := DotAccessDict d ns at'], s))"
    and frame: "\<And>g x g' s. rec g x = Inr (g', s) \<Longrightarrow>
                  s = length g \<and> length g < length g' \<and> take (length g) g' = g"
    and good: "deref g r = Some (DotAccessDict d ns at)"
    and res: "result \<noteq> r"
  shows "sort_loop rec (g[r := DotAccessDict d ns at']) result its =
     (case sort_loop rec g result its of Inl e \<Rightarrow> Inl e
      | Inr g2 \<Rightarrow> Inr (g2[r := DotAccessDict d ns at']))"
  using good
proof (induction its arbitrary: g)
  case Nil
  then show ?case by simp
next
  case (Cons kv its)
  obtain k v where kv: "kv = (k, v)" by (cases kv)
  let ?u = "\<lambda>g. g[r := DotAccessDict d ns at']"
  have rl: "r < length g" using Cons.prems by (auto dest: deref_SomeD)
  have step: "\<And>g1 w. deref g1 r = Some (DotAccessDict d ns at) \<Longrightarrow>
      sort_loop rec (store_entry (?u g1) result k w) result its =
      (case sort_loop rec (store_entry g1 result k w) result its of Inl e \<Rightarrow> Inl e
       | Inr g2 \<Rightarrow> Inr (?u g2))"
  proof -
    fix g1 w assume g1: "deref g1 r = Some (DotAccessDict d ns at)"
    have "deref (store_entry g1 result k w) r = Some (DotAccessDict d ns at)"
      using g1 res by (simp add: deref_store_entry_other)
    from Cons.IH [OF this] show "sort_loop rec (store_entry (?u g1) result k w) result its =
      (case sort_loop rec (store_entry g1 result k w) result its of Inl e \<Rightarrow> Inl e
       | Inr g2 \<Rightarrow> Inr (?u g2))"
      using res by (simp add: store_entry_update_commute)
  qed
  show ?case
  proof (cases "\<exists>y d1 ns1 at1. v = VRef y \<and> deref g y = Some (DotAccessDict d1 ns1 at1)")
    case True
    then obtain y d1 ns1 at1 where v: "v = VRef y"
      and dy: "deref g y = Some (DotAccessDict d1 ns1 at1)" by blast
    obtain d2 ns2 at2 where dy': "deref (?u g) y = Some (DotAccessDict d2 ns2 at2)"
      using dy rl by (cases "y = r") (simp_all add: deref_update_same deref_update_other)
    show ?thesis
    proof (cases "rec g y")
      case (Inl e)
      then show ?thesis
        using kv v dy dy' rec [OF Cons.prems, of y]
        by (simp add: sort_loop_accessor del: sort_loop.simps)
    next
      case (Inr p)
      obtain g1 s where p: "p = (g1, s)" by (cases p)
      from frame [of g y g1 s] Inr p have "take (length g) g1 = g" by simp
      with Cons.prems have g1: "deref g1 r = Some (DotAccessDict d ns at)"
        by (rule deref_extend)
      show ?thesis
        using kv v dy dy' rec [OF Cons.prems, of y] Inr p step [OF g1]
        by (simp add: sort_loop_accessor del: sort_loop.simps)
    qed
  next
    case notacc: False
    have notacc': "\<And>y d1 ns1 at1. v = VRef y \<Longrightarrow>
        deref (?u g) y \<noteq> Some (DotAccessDict d1 ns1 at1)"
    proof -
      fix y d1 ns1 at1 assume x: "v = VRef y"
      show "deref (?u g) y \<noteq> Some (DotAccessDict d1 ns1 at1)"
        using notacc x Cons.prems by (cases "y = r") (auto simp: deref_update_other)
    qed
    show ?thesis
    proof (cases "\<exists>xs. v = VList xs")
      case True
      then obtain xs where v: "v = VList xs" by blast
      have sq: "sort_seq rec (?u g) xs =
         (case sort_seq rec g xs of Inl e \<Rightarrow> Inl e
          | Inr (g2, ys) \<Rightarrow> Inr (?u g2, ys))"
        using rec frame Cons.prems by (rule sort_seq_update)
      show ?thesis
      proof (cases "sort_seq rec g xs")
        case (Inl e)
        then show ?thesis using kv v sq by simp
      next
        case (Inr p)
        obtain g1 ys where p: "p = (g1, ys)" by (cases p)
        have "take (length g) g1 = g"
        proof (rule sort_seq_frame)
          show "sort_seq rec g xs = Inr (g1, ys)" using Inr p by simp
        qed (rule frame)
        with Cons.prems have g1: "deref g1 r = Some (DotAccessDict d ns at)"
          by (rule deref_extend)
        show ?thesis using kv v sq Inr p step [OF g1] by simp
      qed
    next
      case False
      have "sort_loop rec (?u g) result ((k, v) # its) =
          sort_loop rec (store_entry (?u g) result k v) result its"
        using notacc' False by (intro sort_loop_other) blast+
      moreover have "sort_loop rec g result ((k, v) # its) =
          sort_loop rec (store_entry g result k v) result its"
        using notacc False by (intro sort_loop_other) blast+
      ultimately show ?thesis using kv step [OF Cons.prems] by simp
    qed
  qed
qed

lemma dad_sort_update:
  assumes "map_of at' ''sort'' = map_of at ''sort''"
  shows "deref g r = Some (DotAccessDict d ns at) \<Longrightarrow>
     dad_sort key reverse n (g[r := DotAccessDict d ns at']) x =
       (case dad_sort key reverse n g x of Inl e \<Rightarrow> Inl e
        | Inr (g2, s) \<Rightarrow> Inr (g2[r := DotAccessDict d ns at'], s))"
proof (induction n arbitrary: g x)
  case 0
  then show ?case by simp
next
  case (Suc n)
  let ?u = "\<lambda>g. g[r := DotAccessDict d ns at']"
  let ?new = "DotAccessDict [] [] []"
  have rl: "r < length g" using Suc.prems by (auto dest: deref_SomeD)
  have loop: "\<And>its. sort_loop (dad_sort key reverse n) (?u (g @ [?new])) (length g) its =
     (case sort_loop (dad_sort key reverse n) (g @ [?new]) (length g) its of Inl e \<Rightarrow> Inl e
      | Inr g2 \<Rightarrow> Inr (?u g2))"
  proof (rule sort_loop_update)
    fix g' x' assume "deref g' r = Some (DotAccessDict d ns at)"
    then show "dad_sort key reverse n (?u g') x' =
        (case dad_sort key reverse n g' x' of Inl e \<Rightarrow> Inl e
         | Inr (g2, s) \<Rightarrow> Inr (?u g2, s))"
      by (rule Suc.IH)
  next
    fix g' x' g'' s assume "dad_sort key reverse n g' x' = Inr (g'', s)"
    then show "s = length g' \<and> length g' < length g'' \<and> take (length g') g'' = g'"
      by (rule dad_sort_frame)
  next
    show "deref (g @ [?new]) r = Some (DotAccessDict d ns at)"
      using Suc.prems by (rule deref_append)
    show "length g \<noteq> r" using rl by simp
  qed
  have app: "?u g @ [?new] = ?u (g @ [?new])" using rl by (simp add: list_update_append1)
  show ?case
  proof (cases "x = r")
    case True
    have "deref (?u g) r = Some (DotAccessDict d ns at')" using rl by (rule deref_update_same)
    then show ?thesis
      using True Suc.prems assms loop
      by (simp add: alloc_def app split: sum.splits)
  next
    case False
    then have "deref (?u g) x = deref g x" by (rule deref_update_other)
    then show ?thesis
      using loop
      by (simp add: alloc_def app split: sum.splits option.splits obj.splits)
  qed
qed

text \<open>
  C10, as stated, fails for a name \<open>p\<close> that is a method of the class: \<open>keys\<close> is not a key
  that the constructor or \<open>sort\<close> created, yet after \<open>x.keys = 5\<close> the instance attribute
  shadows the method and the call \<open>x.keys()\<close> raises \<open>TypeError\<close> where it returned the keys
  before.
\<close>

theorem C10_assignment_can_shadow_a_method:
  "setattr [DotAccessDict [(''a'', VInt 1)] [(''a'', VInt 1)] []] 0 ''keys'' (VInt 5)
     = Some [DotAccessDict [(''a'', VInt 1)] [(''a'', VInt 1)] [(''keys'', VInt 5)]]
   \<and> dad_keys [DotAccessDict [(''a'', VInt 1)] [(''a'', VInt 1)] []] 0 = Inr [''a'']
   \<and> dad_keys [DotAccessDict [(''a'', VInt 1)] [(''a'', VInt 1)] [(''keys'', VInt 5)]] 0
       = Inl TypeError"
  by (simp add: setattr_def dad_keys_def deref_def private_names_def is_dunder_def)

text \<open>
  C10, amended. For a name \<open>p\<close> that is none of the class's own names (the private fields,
  the methods, the special attributes), whether or not \<open>p\<close> is a key of the data, \<open>x.p = v\<close>
  changes the instance dictionary only: \<open>keys()\<close>, \<open>items()\<close> and \<open>values()\<close> of \<open>x\<close> return
  what they returned before, every comparison \<open>==\<close> has the result it had before, and every
  call of \<open>sort\<close> returns the same new address and the same store as before, but for the
  attribute itself on \<open>x\<close>.
\<close>

theorem C10_assignment_bypasses_the_store:
  assumes "deref h r = Some (DotAccessDict d ns at)"
    and "p \<notin> set private_names" and "\<not> is_dunder p" and "p \<notin> set method_names"
  shows "setattr h r p v = Some (h[r := DotAccessDict d ns (setitem at p v)])
     \<and> dad_keys (h[r := DotAccessDict d ns (setitem at p v)]) r = dad_keys h r
     \<and> dad_items (h[r := DotAccessDict d ns (setitem at p v)]) r = dad_items h r
     \<and> dad_values (h[r := DotAccessDict d ns (setitem at p v)]) r = dad_values h r
     \<and> py_eq n (h[r := DotAccessDict d ns (setitem at p v)]) a b = py_eq n h a b
     \<and> dad_sort key reverse n (h[r := DotAccessDict d ns (setitem at p v)]) x =
         (case dad_sort key reverse n h x of
            Inl e \<Rightarrow> Inl e
          | Inr (g, s) \<Rightarrow> Inr (g[r := DotAccessDict d ns (setitem at p v)], s))"
proof -
  let ?at = "setitem at p v"
  let ?h = "h[r := DotAccessDict d ns ?at]"
  have rl: "r < length h" using assms(1) by (auto dest: deref_SomeD)
  have ne: "''keys'' \<noteq> p" "''items'' \<noteq> p" "''values'' \<noteq> p" "''sort'' \<noteq> p"
    using assms(4) unfolding method_names_def by fastforce+
  have m: "map_of ?at ''keys'' = map_of at ''keys''" "map_of ?at ''items'' = map_of at ''items''"
    "map_of ?at ''values'' = map_of at ''values''" "map_of ?at ''sort'' = map_of at ''sort''"
    by (rule map_of_setitem_other, rule ne)+
  have dr: "deref ?h r = Some (DotAccessDict d ns ?at)" using rl by (rule deref_update_same)
  have 1: "setattr h r p v = Some ?h" using assms(1-3) by (simp add: setattr_def)
  have 2: "dad_keys ?h r = dad_keys h r" using assms(1) dr m(1) by (simp add: dad_keys_def)
  have 3: "dad_items ?h r = dad_items h r" using assms(1) m(2) by (rule dad_items_update)
  have 4: "dad_values ?h r = dad_values h r" using assms(1) dr m(3) by (simp add: dad_values_def)
  have 5: "py_eq n ?h a b = py_eq n h a b" using assms(1) m(2) by (rule py_eq_update)
  have 6: "dad_sort key reverse n ?h x =
         (case dad_sort key reverse n h x of
            Inl e \<Rightarrow> Inl e
          | Inr (g, s) \<Rightarrow> Inr (g[r := DotAccessDict d ns ?at], s))"
    using m(4) assms(1) by (rule dad_sort_update)
  from 1 2 3 4 5 6 show ?thesis by (intro conjI)
qed

lemma example_child:
  "deref example_heap 1
     = Some (DotAccessDict [(''y'', VInt 1), (''x'', VInt 2)] [(''y'', VInt 1), (''x'', VInt 2)] [])
   \<and> dad_items example_heap 1 = Inr [(''y'', VInt 1), (''x'', VInt 2)]"
  by (simp add: example_heap_def deref_def dad_items_def)

theorem C10_assignment_bypasses_the_store_witness:
  "setattr example_heap 1 ''y'' (VInt 42)
     = Some (example_heap[1 := DotAccessDict [(''y'', VInt 1), (''x'', VInt 2)]
                                 [(''y'', VInt 1), (''x'', VInt 2)] [(''y'', VInt 42)]])
   \<and> dad_items (example_heap[1 := DotAccessDict [(''y'', VInt 1), (''x'', VInt 2)]
                                 [(''y'', VInt 1), (''x'', VInt 2)] [(''y'', VInt 42)]]) 1
       = Inr [(''y'', VInt 1), (''x'', VInt 2)]
   \<and> dad_sort (None :: (string \<times> val \<Rightarrow> unit) option) False 4
        (example_heap[1 := DotAccessDict [(''y'', VInt 1), (''x'', VInt 2)]
                                 [(''y'', VInt 1), (''x'', VInt 2)] [(''y'', VInt 42)]]) 0
       = Inr ((example_heap @ example_sorted)
                [1 := DotAccessDict [(''y'', VInt 1), (''x'', VInt 2)]
                                 [(''y'', VInt 1), (''x'', VInt 2)] [(''y'', VInt 42)]], 3)"
  using C10_assignment_bypasses_the_store
      [of example_heap 1 "[(''y'', VInt 1), (''x'', VInt 2)]" "[(''y'', VInt 1), (''x'', VInt 2)]"
          "[]" "''y''" "VInt 42" 4 VNone VNone "None :: (string \<times> val \<Rightarrow> unit) option" False 0]
    example_sort example_child
  by (simp add: private_names_def method_names_def is_dunder_def
      del: dad_sort.simps py_eq.simps)

section \<open>Every accessor built from a document can be sorted\<close>

text \<open>
  The accessors the constructor builds from documents satisfy what the theorems on sorting
  assume: the wrapped source is a well-formed tree, the new object represents it, and so
  sorting it returns once the recursion budget covers the depth of the source.
\<close>

lemma wf_tree_wrapped:
  "document v \<Longrightarrow> wf_tree True (wrapped True v) \<and> wf_tree False (wrapped False v)"
proof (induction v)
  case (VList xs)
  then show ?case by (auto simp: list_all_iff)
next
  case (VDict kvs)
  have "list_all (wf_tree False) (map snd (map (\<lambda>kv. (fst kv, wrapped False (snd kv))) kvs))"
    using VDict by (auto simp: list_all_iff snds.simps)
  moreover have "distinct (map fst (map (\<lambda>kv. (fst kv, wrapped False (snd kv))) kvs))"
    using VDict.prems by (simp add: comp_def)
  ultimately show ?case by simp
qed simp_all

lemma constructed_accessor_sorts:
  assumes "document (VDict kvs)" and "DotAccessDict_init h (VDict kvs) = (h1, r)"
    and "depth (wrapped False (VDict kvs)) \<le> n"
    and "settable (wrapped False (VDict kvs))"
  shows "\<exists>h2. dad_sort (None :: (string \<times> val \<Rightarrow> 'o::linorder) option) reverse n h1 r
              = Inr (h2, length h1)
     \<and> take (length h1) h2 = h1
     \<and> repr_from (length h1) h2 (spec_sort reverse (wrapped False (VDict kvs)))
          (VRef (length h1))"
proof -
  from constructor_ok [OF assms(1)] have "init_ok h (VDict kvs)" by simp
  with assms(2) have "repr_from (length h) h1 (wrapped False (VDict kvs)) (VRef r)"
    by (auto simp: init_ok_def simp del: repr_from.simps wrapped.simps)
  then have r: "repr_from 0 h1 (Node (map (\<lambda>kv. (fst kv, wrapped False (snd kv))) kvs)) (VRef r)"
    by (auto intro: repr_from_weaken simp del: repr_from.simps)
  from wf_tree_wrapped [OF assms(1)]
  have w: "wf_tree False (Node (map (\<lambda>kv. (fst kv, wrapped False (snd kv))) kvs))"
    by simp
  from assms(3) have d: "depth (Node (map (\<lambda>kv. (fst kv, wrapped False (snd kv))) kvs)) \<le> n"
    by simp
  from dad_sort_refines [OF r w d, where ?'o = 'o and reverse = reverse]
  show ?thesis by (simp del: repr_from.simps spec_sort.simps dad_sort.simps)
qed

end
